theory Spec2Isabelle
  imports Main
begin

section \<open>The board (board.py)\<close>

text \<open>
  A \<open>SudokuBoard\<close> object has the box size \<open>n\<close>, the side \<open>board_size = n * n\<close> and the
  grid \<open>board\<close>, a list of rows of Python integers.  Sizes are natural numbers (a negative
  box size is outside the model), cell values are unbounded integers (\<open>0\<close> is the empty
  cell).  The record fields carry the prefix \<open>board_\<close>; \<open>board_grid\<close> is the attribute
  \<open>self.board\<close>.
\<close>

record SudokuBoard =
  board_n :: nat
  board_size :: nat
  board_grid :: "int list list"

text \<open>
  Python exceptions are values.  Every \<open>ValueError\<close> the board raises is tagged with the
  place that raises it: the length test and the range test of \<open>from_string\<close>, the call
  \<open>int(ch, 36)\<close> inside it, and the shape test of \<open>from_list\<close>.
\<close>

datatype value_error =
    PuzzleLength
  | InvalidValue int
  | InvalidLiteral char
  | BoardShape

datatype error = ValueError value_error | IndexError

subsection \<open>Construction\<close>

definition init :: "nat \<Rightarrow> SudokuBoard" where
  "init sz =
     \<lparr>board_n = sz, board_size = sz * sz,
      board_grid = replicate (sz * sz) (replicate (sz * sz) 0)\<rparr>"

text \<open>
  The class invariant every constructor establishes: the side is \<open>n * n\<close> and the grid is
  square of that side.  The box size is positive: for \<open>n = 0\<close> the call
  \<open>range(0, board_size, n)\<close> in \<open>is_valid_solution\<close> raises.
\<close>

definition wf_board :: "SudokuBoard \<Rightarrow> bool" where
  "wf_board b \<longleftrightarrow>
     0 < board_n b \<and> board_size b = board_n b * board_n b \<and>
     length (board_grid b) = board_size b \<and>
     list_all (\<lambda>row. length row = board_size b) (board_grid b)"

text \<open>
  \<open>puzzle.replace(".", "0").replace(" ", "").replace("\n", "")\<close>.  A Python string is a
  sequence of code points; the model covers the code points below 256, one \<open>char\<close> each.
\<close>

definition strip_puzzle :: "string \<Rightarrow> string" where
  "strip_puzzle puzzle =
     filter (\<lambda>ch. ch \<noteq> CHR 0x0A)
       (filter (\<lambda>ch. ch \<noteq> CHR '' '')
          (map (\<lambda>ch. if ch = CHR ''.'' then CHR ''0'' else ch) puzzle))"

text \<open>
  \<open>str.isalnum\<close> on one character: true for the ASCII digits and letters and for the
  letters and numeric characters of the Latin-1 supplement (U+00AA, U+00B2, U+00B3, U+00B5,
  U+00B9, U+00BA, U+00BC..U+00BE, U+00C0..U+00D6, U+00D8..U+00F6, U+00F8..U+00FF).
\<close>

definition isalnum :: "char \<Rightarrow> bool" where
  "isalnum ch =
     (let k = (of_char ch :: nat) in
        (48 \<le> k \<and> k \<le> 57) \<or> (65 \<le> k \<and> k \<le> 90) \<or> (97 \<le> k \<and> k \<le> 122) \<or>
        k = 170 \<or> k = 178 \<or> k = 179 \<or> k = 181 \<or> k = 185 \<or> k = 186 \<or>
        (188 \<le> k \<and> k \<le> 190) \<or> (192 \<le> k \<and> k \<le> 214) \<or>
        (216 \<le> k \<and> k \<le> 246) \<or> (248 \<le> k \<and> k \<le> 255))"

text \<open>
  \<open>int(ch, 36)\<close> on one character: the digit value of an ASCII digit or letter of either
  case; every other character is an invalid literal and raises \<open>ValueError\<close>.
\<close>

definition int36 :: "char \<Rightarrow> error + int" where
  "int36 ch =
     (let k = (of_char ch :: nat) in
        if 48 \<le> k \<and> k \<le> 57 then Inr (int k - 48)
        else if 65 \<le> k \<and> k \<le> 90 then Inr (int k - 55)
        else if 97 \<le> k \<and> k \<le> 122 then Inr (int k - 87)
        else Inl (ValueError (InvalidLiteral ch)))"

text \<open>\<open>int(puzzle[idx], 36) if puzzle[idx].isalnum() else 0\<close>.\<close>

definition decode_char :: "char \<Rightarrow> error + int" where
  "decode_char ch = (if isalnum ch then int36 ch else Inr 0)"

text \<open>
  The body of the double loop of \<open>from_string\<close>, in the order of \<open>idx\<close>: decode the
  character, compare with the side, store.  The first exception ends the loop; the result
  is then the exception, and the cells the loop had already written to the object are not
  part of it.
\<close>

fun decode_cells :: "nat \<Rightarrow> string \<Rightarrow> error + int list" where
  "decode_cells side [] = Inr []"
| "decode_cells side (ch # rest) =
     (case decode_char ch of
        Inl e \<Rightarrow> Inl e
      | Inr val \<Rightarrow>
          if val > int side then Inl (ValueError (InvalidValue val))
          else (case decode_cells side rest of
                  Inl e \<Rightarrow> Inl e
                | Inr vals \<Rightarrow> Inr (val # vals)))"

definition from_string :: "SudokuBoard \<Rightarrow> string \<Rightarrow> error + SudokuBoard" where
  "from_string self puzzle =
     (let puzzle = strip_puzzle puzzle in
        if length puzzle \<noteq> (board_size self)\<^sup>2 then Inl (ValueError PuzzleLength)
        else (case decode_cells (board_size self) puzzle of
                Inl e \<Rightarrow> Inl e
              | Inr vals \<Rightarrow>
                  Inr (self\<lparr>board_grid :=
                    map (\<lambda>i. map (\<lambda>j. vals ! (i * board_size self + j)) [0..<board_size self])
                      [0..<board_size self]\<rparr>)))"

definition from_list :: "SudokuBoard \<Rightarrow> int list list \<Rightarrow> error + SudokuBoard" where
  "from_list self board =
     (if length board \<noteq> board_size self \<or> list_ex (\<lambda>row. length row \<noteq> board_size self) board
      then Inl (ValueError BoardShape)
      else Inr (self\<lparr>board_grid := map (\<lambda>row. row) board\<rparr>))"

definition copy :: "SudokuBoard \<Rightarrow> SudokuBoard" where
  "copy self = (init (board_n self))\<lparr>board_grid := map (\<lambda>row. row) (board_grid self)\<rparr>"

subsection \<open>Cell access with Python's index rules\<close>

text \<open>
  \<open>xs[i]\<close> and \<open>xs[i] = v\<close> on a Python list: a negative index counts from the end, an
  index outside \<open>[-len, len)\<close> raises \<open>IndexError\<close>.
\<close>

definition py_index :: "'a list \<Rightarrow> int \<Rightarrow> error + nat" where
  "py_index xs i =
     (let len = int (length xs); j = (if i < 0 then len + i else i)
      in if 0 \<le> j \<and> j < len then Inr (nat j) else Inl IndexError)"

definition py_getitem :: "'a list \<Rightarrow> int \<Rightarrow> error + 'a" where
  "py_getitem xs i = (case py_index xs i of Inl e \<Rightarrow> Inl e | Inr j \<Rightarrow> Inr (xs ! j))"

definition py_setitem :: "'a list \<Rightarrow> int \<Rightarrow> 'a \<Rightarrow> error + 'a list" where
  "py_setitem xs i v = (case py_index xs i of Inl e \<Rightarrow> Inl e | Inr j \<Rightarrow> Inr (xs[j := v]))"

definition get :: "SudokuBoard \<Rightarrow> int \<Rightarrow> int \<Rightarrow> error + int" where
  "get self row col =
     (case py_getitem (board_grid self) row of
        Inl e \<Rightarrow> Inl e
      | Inr r \<Rightarrow> py_getitem r col)"

definition set_value :: "SudokuBoard \<Rightarrow> int \<Rightarrow> int \<Rightarrow> int \<Rightarrow> error + SudokuBoard" where
  "set_value self row col val =
     (case py_index (board_grid self) row of
        Inl e \<Rightarrow> Inl e
      | Inr i \<Rightarrow>
          (case py_setitem (board_grid self ! i) col val of
             Inl e \<Rightarrow> Inl e
           | Inr r \<Rightarrow> Inr (self\<lparr>board_grid := (board_grid self)[i := r]\<rparr>)))"

definition is_empty_cell :: "SudokuBoard \<Rightarrow> int \<Rightarrow> int \<Rightarrow> error + bool" where
  "is_empty_cell self row col =
     (case get self row col of Inl e \<Rightarrow> Inl e | Inr v \<Rightarrow> Inr (v = 0))"

text \<open>
  Inside the board's own loops and inside the solver every index comes from
  \<open>range(board_size)\<close>, so on a well-formed board no access raises.  There the cell is
  read and written by position.
\<close>

definition cell :: "SudokuBoard \<Rightarrow> nat \<Rightarrow> nat \<Rightarrow> int" where
  "cell b r c = board_grid b ! r ! c"

definition put :: "SudokuBoard \<Rightarrow> nat \<Rightarrow> nat \<Rightarrow> int \<Rightarrow> SudokuBoard" where
  "put b r c v = b\<lparr>board_grid := (board_grid b)[r := (board_grid b ! r)[c := v]]\<rparr>"

definition is_empty :: "SudokuBoard \<Rightarrow> nat \<Rightarrow> nat \<Rightarrow> bool" where
  "is_empty b r c \<longleftrightarrow> cell b r c = 0"

subsection \<open>The constraint model\<close>

definition get_box_index :: "SudokuBoard \<Rightarrow> nat \<Rightarrow> nat \<Rightarrow> nat \<times> nat" where
  "get_box_index self row col =
     ((row div board_n self) * board_n self, (col div board_n self) * board_n self)"

text \<open>The values \<open>self.board[r][col] for r in range(self.board_size)\<close>.\<close>

definition column_values :: "SudokuBoard \<Rightarrow> nat \<Rightarrow> int list" where
  "column_values self col = map (\<lambda>r. cell self r col) [0..<board_size self]"

text \<open>
  The values met by the double loop over \<open>range(box_row, box_row + n)\<close> and
  \<open>range(box_col, box_col + n)\<close>.
\<close>

definition box_values :: "SudokuBoard \<Rightarrow> nat \<Rightarrow> nat \<Rightarrow> int list" where
  "box_values self box_row box_col =
     map (\<lambda>(r, c). cell self r c)
       (List.product [box_row..<box_row + board_n self] [box_col..<box_col + board_n self])"

text \<open>\<open>get_candidates\<close> returns a Python set; its value is a set of integers.\<close>

definition get_candidates :: "SudokuBoard \<Rightarrow> nat \<Rightarrow> nat \<Rightarrow> int set" where
  "get_candidates self row col =
     (if \<not> is_empty self row col then {}
      else
        let candidates = set (map int [1..<board_size self + 1]);
            candidates = candidates - set (board_grid self ! row);
            candidates = candidates - set (column_values self col);
            (box_row, box_col) = get_box_index self row col
        in candidates - set (box_values self box_row box_col))"

definition is_complete :: "SudokuBoard \<Rightarrow> bool" where
  "is_complete self =
     list_all (\<lambda>r. list_all (\<lambda>c. cell self r c \<noteq> 0) [0..<board_size self])
       [0..<board_size self]"

text \<open>\<open>range(0, stop, step)\<close> for a positive step.\<close>

definition range_step :: "nat \<Rightarrow> nat \<Rightarrow> nat list" where
  "range_step stop step = map (\<lambda>k. k * step) [0..<(stop + step - 1) div step]"

definition is_valid_solution :: "SudokuBoard \<Rightarrow> bool" where
  "is_valid_solution self =
     (if \<not> is_complete self then False
      else if list_ex (\<lambda>i. card (set (board_grid self ! i)) \<noteq> board_size self \<or>
                           card (set (column_values self i)) \<noteq> board_size self)
                [0..<board_size self] then False
      else if list_ex (\<lambda>box_r.
                  list_ex (\<lambda>box_c.
                     card (set (box_values self box_r box_c)) \<noteq> board_size self)
                    (range_step (board_size self) (board_n self)))
                (range_step (board_size self) (board_n self)) then False
      else True)"

section \<open>The solver (solver.py)\<close>

text \<open>
  The two heuristic flags of a \<open>SudokuSolver\<close>.  The explanation log, the elapsed time and
  the optional Prolog cross-check are left out: they only append to the log and never
  change the board, the counters or a result.
\<close>

record SudokuSolver =
  use_mrv :: bool
  use_forward_checking :: bool

text \<open>
  What a search does to the board, in order: \<open>Node b\<close> is one call of \<open>_backtrack\<close> on
  the board \<open>b\<close> (the snapshot the step callback receives), \<open>DeadEnd\<close> the return on an
  empty candidate set, \<open>Trial b\<close> the board after \<open>board.set(row, col, num)\<close>,
  \<open>UndoForward b\<close> and \<open>UndoRecursion b\<close> the board after \<open>board.set(row, col, 0)\<close>
  on the forward-checking path and after a failed recursive call.
\<close>

datatype event =
    Node SudokuBoard
  | DeadEnd nat nat
  | Trial SudokuBoard
  | UndoForward SudokuBoard
  | UndoRecursion SudokuBoard

text \<open>The counters of the solver, and the history of the search as it goes.\<close>

record stats =
  nodes_explored :: nat
  backtrack_count :: nat
  history :: "event list"

text \<open>The cells in the order of the double loop over \<open>range(board_size)\<close>.\<close>

definition scan_order :: "SudokuBoard \<Rightarrow> (nat \<times> nat) list" where
  "scan_order board = List.product [0..<board_size board] [0..<board_size board]"

fun first_empty :: "SudokuBoard \<Rightarrow> (nat \<times> nat) list \<Rightarrow> (nat \<times> nat) option" where
  "first_empty board [] = None"
| "first_empty board ((r, c) # rest) =
     (if is_empty board r c then Some (r, c) else first_empty board rest)"

text \<open>
  The MRV loop, with its two local variables \<open>min_candidates\<close> and \<open>best_cell\<close>.
\<close>

fun mrv_scan ::
  "SudokuBoard \<Rightarrow> (nat \<times> nat) list \<Rightarrow> nat \<Rightarrow> (nat \<times> nat) option \<Rightarrow> (nat \<times> nat) option"
where
  "mrv_scan board [] min_candidates best_cell = best_cell"
| "mrv_scan board ((r, c) # rest) min_candidates best_cell =
     (if is_empty board r c then
        (let num_candidates = card (get_candidates board r c) in
           if num_candidates = 0 then Some (r, c)
           else if num_candidates < min_candidates
             then mrv_scan board rest num_candidates (Some (r, c))
             else mrv_scan board rest min_candidates best_cell)
      else mrv_scan board rest min_candidates best_cell)"

definition select_unassigned_variable ::
  "SudokuSolver \<Rightarrow> SudokuBoard \<Rightarrow> (nat \<times> nat) option" where
  "select_unassigned_variable self board =
     (if \<not> use_mrv self then first_empty board (scan_order board)
      else mrv_scan board (scan_order board) (board_size board + 1) None)"

definition is_consistent :: "SudokuBoard \<Rightarrow> bool" where
  "is_consistent board =
     (\<not> list_ex (\<lambda>(r, c). is_empty board r c \<and> card (get_candidates board r c) = 0)
          (scan_order board))"

text \<open>
  \<open>for num in candidates\<close> visits a Python set in the order of the interpreter's hash
  table, which depends on how the set was built and is not always ascending.  The order
  is a parameter of the search: a function giving, for a board and a cell, the visiting
  order of that cell's candidate set.  It \<open>enumerates\<close> when it lists exactly the
  candidate set, each value once.
\<close>

type_synonym visiting = "SudokuBoard \<Rightarrow> nat \<Rightarrow> nat \<Rightarrow> int list"

definition enumerates :: "visiting \<Rightarrow> bool" where
  "enumerates vis \<longleftrightarrow>
     (\<forall>b r c. set (vis b r c) = get_candidates b r c \<and> distinct (vis b r c))"

definition ascending :: visiting where
  "ascending b r c = sorted_list_of_set (get_candidates b r c)"

definition enter :: "stats \<Rightarrow> SudokuBoard \<Rightarrow> stats" where
  "enter st board =
     st\<lparr>nodes_explored := nodes_explored st + 1, history := history st @ [Node board]\<rparr>"

definition record_event :: "stats \<Rightarrow> event \<Rightarrow> stats" where
  "record_event st e = st\<lparr>history := history st @ [e]\<rparr>"

definition count_backtrack :: "stats \<Rightarrow> event \<Rightarrow> stats" where
  "count_backtrack st e =
     st\<lparr>backtrack_count := backtrack_count st + 1, history := history st @ [e]\<rparr>"

text \<open>
  \<open>_backtrack\<close> mutates the board in place and recurses; the model passes the board and
  the counters through and returns them with the result.  The first argument bounds the
  depth of the recursion: \<open>None\<close> is a search cut off by the bound.  \<open>try_candidates\<close>
  is the \<open>for\<close> loop over what is left of the candidates.
\<close>

fun backtrack ::
  "nat \<Rightarrow> SudokuSolver \<Rightarrow> visiting \<Rightarrow> stats \<Rightarrow> SudokuBoard \<Rightarrow> (bool \<times> stats \<times> SudokuBoard) option"
and try_candidates ::
  "nat \<Rightarrow> SudokuSolver \<Rightarrow> visiting \<Rightarrow> stats \<Rightarrow> SudokuBoard \<Rightarrow> nat \<Rightarrow> nat \<Rightarrow> int list \<Rightarrow>
     (bool \<times> stats \<times> SudokuBoard) option"
where
  "backtrack 0 self vis st board = None"
| "backtrack (Suc depth) self vis st board =
     (let st = enter st board in
        case select_unassigned_variable self board of
          None \<Rightarrow> Some (is_valid_solution board, st, board)
        | Some (row, col) \<Rightarrow>
            if card (get_candidates board row col) = 0
            then Some (False, record_event st (DeadEnd row col), board)
            else try_candidates depth self vis st board row col (vis board row col))"
| "try_candidates depth self vis st board row col [] = Some (False, st, board)"
| "try_candidates depth self vis st board row col (num # rest) =
     (let board = put board row col num;
          st = record_event st (Trial board) in
        if use_forward_checking self \<and> \<not> is_consistent board then
          (let board = put board row col 0 in
             try_candidates depth self vis (count_backtrack st (UndoForward board))
               board row col rest)
        else
          (case backtrack depth self vis st board of
             None \<Rightarrow> None
           | Some (True, st, board) \<Rightarrow> Some (True, st, board)
           | Some (False, st, board) \<Rightarrow>
               (let board = put board row col 0 in
                  try_candidates depth self vis (count_backtrack st (UndoRecursion board))
                    board row col rest)))"

definition initial_stats :: stats where
  "initial_stats = \<lparr>nodes_explored = 0, backtrack_count = 0, history = []\<rparr>"

definition solve ::
  "nat \<Rightarrow> SudokuSolver \<Rightarrow> visiting \<Rightarrow> SudokuBoard \<Rightarrow> ((bool \<times> SudokuBoard option) \<times> stats) option"
where
  "solve depth self vis board =
     (let working_board = copy board in
        case backtrack depth self vis initial_stats working_board of
          None \<Rightarrow> None
        | Some (success, st, working_board) \<Rightarrow>
            if success then Some ((True, Some working_board), st)
            else Some ((False, None), st))"

text \<open>The number of empty cells: one more bounds the depth of any search.\<close>

definition count_empty :: "SudokuBoard \<Rightarrow> nat" where
  "count_empty board = length (filter (\<lambda>(r, c). is_empty board r c) (scan_order board))"

text \<open>The position a Python index in \<open>[-side, side)\<close> denotes.\<close>

definition from_end :: "nat \<Rightarrow> int \<Rightarrow> nat" where
  "from_end side i = nat (if i < 0 then int side + i else i)"

section \<open>The solver on a store of row objects\<close>

text \<open>
  Whether \<open>solve\<close> can change the caller's board depends on which list objects the
  working board shares with it.  Here the rows are objects in a store: an address is an
  index into the store, and a board object holds the addresses of its rows.  Allocation
  appends to the store.
\<close>

type_synonym store = "int list list"

record board_ref =
  ref_n :: nat
  ref_size :: nat
  ref_rows :: "nat list"

text \<open>The board a reference denotes in a store.\<close>

definition view :: "store \<Rightarrow> board_ref \<Rightarrow> SudokuBoard" where
  "view h self =
     \<lparr>board_n = ref_n self, board_size = ref_size self,
      board_grid = map (\<lambda>a. h ! a) (ref_rows self)\<rparr>"

text \<open>Every row address of the board is allocated.\<close>

definition allocated :: "store \<Rightarrow> board_ref \<Rightarrow> bool" where
  "allocated h self = list_all (\<lambda>a. a < length h) (ref_rows self)"

text \<open>\<open>SudokuBoard(size)\<close>: the comprehension allocates \<open>size * size\<close> fresh rows of zeros.\<close>

definition init_ref :: "store \<Rightarrow> nat \<Rightarrow> store \<times> board_ref" where
  "init_ref h sz =
     (h @ replicate (sz * sz) (replicate (sz * sz) 0),
      \<lparr>ref_n = sz, ref_size = sz * sz, ref_rows = [length h..<length h + sz * sz]\<rparr>)"

text \<open>
  \<open>copy\<close>: a new board object, whose attribute \<open>board\<close> is then replaced by the list
  \<open>[row[:] for row in self.board]\<close> of fresh copies of the rows.
\<close>

definition copy_ref :: "store \<Rightarrow> board_ref \<Rightarrow> store \<times> board_ref" where
  "copy_ref h self =
     (let (h, new_board) = init_ref h (ref_n self)
      in (h @ map (\<lambda>a. h ! a) (ref_rows self),
          new_board\<lparr>ref_rows := [length h..<length h + length (ref_rows self)]\<rparr>))"

text \<open>\<open>self.board[row][col] = value\<close>: the row object is updated in place.\<close>

definition set_ref :: "store \<Rightarrow> board_ref \<Rightarrow> nat \<Rightarrow> nat \<Rightarrow> int \<Rightarrow> store" where
  "set_ref h self row col val =
     h[ref_rows self ! row := (h ! (ref_rows self ! row))[col := val]]"

text \<open>
  \<open>_backtrack\<close> and its loop once more, now writing to the store through the board
  object they are given; every read goes through \<open>view\<close>.
\<close>

fun backtrack_ref ::
  "nat \<Rightarrow> SudokuSolver \<Rightarrow> visiting \<Rightarrow> stats \<Rightarrow> store \<Rightarrow> board_ref \<Rightarrow> (bool \<times> stats \<times> store) option"
and try_candidates_ref ::
  "nat \<Rightarrow> SudokuSolver \<Rightarrow> visiting \<Rightarrow> stats \<Rightarrow> store \<Rightarrow> board_ref \<Rightarrow> nat \<Rightarrow> nat \<Rightarrow> int list \<Rightarrow>
     (bool \<times> stats \<times> store) option"
where
  "backtrack_ref 0 self vis st h board = None"
| "backtrack_ref (Suc depth) self vis st h board =
     (let st = enter st (view h board) in
        case select_unassigned_variable self (view h board) of
          None \<Rightarrow> Some (is_valid_solution (view h board), st, h)
        | Some (row, col) \<Rightarrow>
            if card (get_candidates (view h board) row col) = 0
            then Some (False, record_event st (DeadEnd row col), h)
            else try_candidates_ref depth self vis st h board row col
                   (vis (view h board) row col))"
| "try_candidates_ref depth self vis st h board row col [] = Some (False, st, h)"
| "try_candidates_ref depth self vis st h board row col (num # rest) =
     (let h = set_ref h board row col num;
          st = record_event st (Trial (view h board)) in
        if use_forward_checking self \<and> \<not> is_consistent (view h board) then
          (let h = set_ref h board row col 0 in
             try_candidates_ref depth self vis
               (count_backtrack st (UndoForward (view h board))) h board row col rest)
        else
          (case backtrack_ref depth self vis st h board of
             None \<Rightarrow> None
           | Some (True, st, h) \<Rightarrow> Some (True, st, h)
           | Some (False, st, h) \<Rightarrow>
               (let h = set_ref h board row col 0 in
                  try_candidates_ref depth self vis
                    (count_backtrack st (UndoRecursion (view h board))) h board row col rest)))"

definition solve_ref ::
  "nat \<Rightarrow> SudokuSolver \<Rightarrow> visiting \<Rightarrow> store \<Rightarrow> board_ref \<Rightarrow>
     ((bool \<times> board_ref option) \<times> stats \<times> store) option"
where
  "solve_ref depth self vis h board =
     (let (h, working_board) = copy_ref h board in
        case backtrack_ref depth self vis initial_stats h working_board of
          None \<Rightarrow> None
        | Some (success, st, h) \<Rightarrow>
            if success then Some ((True, Some working_board), st, h)
            else Some ((False, None), st, h))"

text \<open>
  A result \<open>x\<close> of the search on the store \<open>h\<close> matches a result \<open>y\<close> of the search on
  the board: the same outcome and counters, a final store that shows the final board, and
  no row changed but the rows of the board searched.
\<close>

definition matches ::
  "store \<Rightarrow> board_ref \<Rightarrow> (bool \<times> stats \<times> store) option \<Rightarrow>
     (bool \<times> stats \<times> SudokuBoard) option \<Rightarrow> bool"
where
  "matches h p x y =
     (case y of
        None \<Rightarrow> x = None
      | Some (ok, st, b) \<Rightarrow>
          (\<exists>h'. x = Some (ok, st, h') \<and> view h' p = b \<and> length h' = length h \<and>
             list_all (\<lambda>a. a \<in> set (ref_rows p) \<or> h' ! a = h ! a) [0..<length h]))"

section \<open>Notions of the specification\<close>

text \<open>
  Two cells are related when they lie in the same row, the same column or the same
  \<open>n \<times> n\<close> box.
\<close>

definition related :: "nat \<Rightarrow> nat \<times> nat \<Rightarrow> nat \<times> nat \<Rightarrow> bool" where
  "related n p q \<longleftrightarrow>
     fst p = fst q \<or> snd p = snd q \<or>
     (fst p div n = fst q div n \<and> snd p div n = snd q div n)"

text \<open>
  The consistency invariant: no two equal nonzero values share a row, a column or a box.
\<close>

definition consistent :: "SudokuBoard \<Rightarrow> bool" where
  "consistent b =
     list_all (\<lambda>p. list_all (\<lambda>q.
        \<not> (p \<noteq> q \<and> related (board_n b) p q \<and> cell b (fst p) (snd p) \<noteq> 0 \<and>
           cell b (fst p) (snd p) = cell b (fst q) (snd q)))
       (scan_order b)) (scan_order b)"

text \<open>
  \<open>fills b s\<close>: the board \<open>s\<close> keeps every filled cell of \<open>b\<close> and holds a value of
  \<open>1..side\<close> in every cell that is empty in \<open>b\<close>.
\<close>

definition fills :: "SudokuBoard \<Rightarrow> SudokuBoard \<Rightarrow> bool" where
  "fills b s \<longleftrightarrow>
     board_n s = board_n b \<and> board_size s = board_size b \<and>
     list_all (\<lambda>(r, c).
        if cell b r c = 0 then 1 \<le> cell s r c \<and> cell s r c \<le> int (board_size b)
        else cell s r c = cell b r c) (scan_order b)"

text \<open>Every cell holds a value of \<open>[0, side]\<close>, as the data model of the board asks.\<close>

definition in_range :: "SudokuBoard \<Rightarrow> bool" where
  "in_range b =
     list_all (\<lambda>(r, c). 0 \<le> cell b r c \<and> cell b r c \<le> int (board_size b)) (scan_order b)"

text \<open>
  A row, column or box \<open>xs\<close> contains each value of \<open>1..side\<close> exactly once; and every
  row, column and box of a board does.
\<close>

definition exactly_once :: "nat \<Rightarrow> int list \<Rightarrow> bool" where
  "exactly_once side xs = list_all (\<lambda>v. count_list xs v = 1) (map int [1..<side + 1])"

definition units_complete :: "SudokuBoard \<Rightarrow> bool" where
  "units_complete b \<longleftrightarrow>
     list_all (\<lambda>i. exactly_once (board_size b) (board_grid b ! i) \<and>
                   exactly_once (board_size b) (column_values b i)) [0..<board_size b] \<and>
     list_all (\<lambda>box_r. list_all (\<lambda>box_c.
         exactly_once (board_size b) (box_values b box_r box_c))
       (range_step (board_size b) (board_n b))) (range_step (board_size b) (board_n b))"

text \<open>
  The empty cells of a board in row-major order, and the size of a cell's candidate set.
\<close>

definition empty_cells :: "SudokuBoard \<Rightarrow> (nat \<times> nat) list" where
  "empty_cells board = filter (\<lambda>(r, c). is_empty board r c) (scan_order board)"

definition candidate_count :: "SudokuBoard \<Rightarrow> nat \<times> nat \<Rightarrow> nat" where
  "candidate_count board p = card (get_candidates board (fst p) (snd p))"

text \<open>The board an event shows, and the boards a history shows, in order.\<close>

fun event_boards :: "event \<Rightarrow> SudokuBoard list" where
  "event_boards (Node b) = [b]"
| "event_boards (DeadEnd r c) = []"
| "event_boards (Trial b) = [b]"
| "event_boards (UndoForward b) = [b]"
| "event_boards (UndoRecursion b) = [b]"

definition boards_of :: "event list \<Rightarrow> SudokuBoard list" where
  "boards_of evs = concat (map event_boards evs)"

text \<open>Kinds of events, and how many events of a kind a history holds.\<close>

fun is_node :: "event \<Rightarrow> bool" where
  "is_node (Node b) = True"
| "is_node e = False"


fun is_undo_forward :: "event \<Rightarrow> bool" where
  "is_undo_forward (UndoForward b) = True"
| "is_undo_forward e = False"

fun is_undo_recursion :: "event \<Rightarrow> bool" where
  "is_undo_recursion (UndoRecursion b) = True"
| "is_undo_recursion e = False"


definition count_events :: "(event \<Rightarrow> bool) \<Rightarrow> event list \<Rightarrow> nat" where
  "count_events P evs = length (filter P evs)"

text \<open>
  The counters after the events \<open>evs\<close> when every call is counted as a node and every
  undone trial as a backtrack, and nothing else is counted.
\<close>

definition tally :: "stats \<Rightarrow> event list \<Rightarrow> stats" where
  "tally st evs =
     st\<lparr>nodes_explored := nodes_explored st + count_events is_node evs,
        backtrack_count := backtrack_count st + count_events is_undo_forward evs +
          count_events is_undo_recursion evs,
        history := history st @ evs\<rparr>"


section \<open>Example boards\<close>

text \<open>A solved 4 by 4 board.\<close>

definition example4 :: SudokuBoard where
  "example4 = \<lparr>board_n = 2, board_size = 4,
      board_grid = [[1, 2, 3, 4], [3, 4, 1, 2], [2, 1, 4, 3], [4, 3, 2, 1]]\<rparr>"

text \<open>The 4 by 4 puzzle of the test suite, \<open>1.3...1...4.4.2.\<close>; its solution is \<open>example4\<close>.\<close>

definition puzzle4 :: SudokuBoard where
  "puzzle4 = \<lparr>board_n = 2, board_size = 4,
      board_grid = [[1, 0, 3, 0], [0, 0, 1, 0], [0, 0, 4, 0], [4, 0, 2, 0]]\<rparr>"


text \<open>A filled board with pairwise distinct values in every unit, none of them in \<open>1..4\<close>.\<close>

definition off_range4 :: SudokuBoard where
  "off_range4 = \<lparr>board_n = 2, board_size = 4,
      board_grid = [[5, 6, 7, 8], [7, 8, 5, 6], [6, 5, 8, 7], [8, 7, 6, 5]]\<rparr>"

text \<open>The default solver: both heuristics enabled.\<close>

definition both_on :: SudokuSolver where
  "both_on = \<lparr>use_mrv = True, use_forward_checking = True\<rparr>"

text \<open>
  Two boards for the MRV scan: on the first the third cell of the first row is the first
  with the fewest candidates (two); on the second the last cell of the second row has no
  candidate and the four empty cells before it have some.
\<close>

definition mrv4 :: SudokuBoard where
  "mrv4 = \<lparr>board_n = 2, board_size = 4,
      board_grid = [[0, 0, 0, 0], [0, 0, 1, 2], [0, 0, 0, 0], [0, 0, 0, 0]]\<rparr>"

definition mrv_dead4 :: SudokuBoard where
  "mrv_dead4 = \<lparr>board_n = 2, board_size = 4,
      board_grid = [[0, 0, 0, 0], [1, 2, 3, 0], [0, 0, 0, 4], [0, 0, 0, 0]]\<rparr>"

text \<open>A solved 9 by 9 board, and the same board with its central cell cleared.\<close>

definition solved9 :: SudokuBoard where
  "solved9 = \<lparr>board_n = 3, board_size = 9,
      board_grid =
        [[5, 3, 4, 6, 7, 8, 9, 1, 2],
         [6, 7, 2, 1, 9, 5, 3, 4, 8],
         [1, 9, 8, 3, 4, 2, 5, 6, 7],
         [8, 5, 9, 7, 6, 1, 4, 2, 3],
         [4, 2, 6, 8, 5, 3, 7, 9, 1],
         [7, 1, 3, 9, 2, 4, 8, 5, 6],
         [9, 6, 1, 5, 3, 7, 2, 8, 4],
         [2, 8, 7, 4, 1, 9, 6, 3, 5],
         [3, 4, 5, 2, 8, 6, 1, 7, 9]]\<rparr>"

definition cleared9 :: SudokuBoard where
  "cleared9 = \<lparr>board_n = 3, board_size = 9,
      board_grid =
        [[5, 3, 4, 6, 7, 8, 9, 1, 2],
         [6, 7, 2, 1, 9, 5, 3, 4, 8],
         [1, 9, 8, 3, 4, 2, 5, 6, 7],
         [8, 5, 9, 7, 6, 1, 4, 2, 3],
         [4, 2, 6, 8, 0, 3, 7, 9, 1],
         [7, 1, 3, 9, 2, 4, 8, 5, 6],
         [9, 6, 1, 5, 3, 7, 2, 8, 4],
         [2, 8, 7, 4, 1, 9, 6, 3, 5],
         [3, 4, 5, 2, 8, 6, 1, 7, 9]]\<rparr>"

text \<open>The puzzle \<open>puzzle4\<close> as a board object whose rows are the four rows of a store.\<close>

definition puzzle4_store :: store where
  "puzzle4_store = [[1, 0, 3, 0], [0, 0, 1, 0], [0, 0, 4, 0], [4, 0, 2, 0]]"

definition puzzle4_ref :: board_ref where
  "puzzle4_ref = \<lparr>ref_n = 2, ref_size = 4, ref_rows = [0, 1, 2, 3]\<rparr>"

text \<open>
  A board with several completions, and the two the search returns on it: the first with
  MRV disabled, the second with MRV enabled.
\<close>

definition two_ways4 :: SudokuBoard where
  "two_ways4 = \<lparr>board_n = 2, board_size = 4,
      board_grid = [[0, 0, 4, 0], [0, 0, 0, 0], [0, 3, 0, 0], [0, 0, 0, 0]]\<rparr>"

definition two_ways4_plain :: SudokuBoard where
  "two_ways4_plain = \<lparr>board_n = 2, board_size = 4,
      board_grid = [[1, 2, 4, 3], [3, 4, 1, 2], [4, 3, 2, 1], [2, 1, 3, 4]]\<rparr>"

definition two_ways4_mrv :: SudokuBoard where
  "two_ways4_mrv = \<lparr>board_n = 2, board_size = 4,
      board_grid = [[2, 1, 4, 3], [3, 4, 1, 2], [1, 3, 2, 4], [4, 2, 3, 1]]\<rparr>"


section \<open>Public cell access\<close>

lemma py_index_in_range:
  assumes "- int (length xs) \<le> i" "i < int (length xs)"
  shows "py_index xs i = Inr (from_end (length xs) i)" "from_end (length xs) i < length xs"
  using assms by (auto simp: py_index_def Let_def from_end_def)

lemma py_index_too_large: "int (length xs) \<le> i \<Longrightarrow> py_index xs i = Inl IndexError"
  by (auto simp: py_index_def Let_def)

lemma py_index_cases: "py_index xs i = Inl IndexError \<or> (\<exists>j < length xs. py_index xs i = Inr j)"
  by (auto simp: py_index_def Let_def)

lemma wf_board_row_length: "wf_board b \<Longrightarrow> r < board_size b \<Longrightarrow> length (board_grid b ! r) = board_size b"
  by (simp add: wf_board_def list_all_length)

text \<open>
  C10.  \<open>get\<close>, \<open>set\<close> and \<open>is_empty\<close> check no bounds of their own: on a well-formed
  board a row or column index in \<open>[-side, -1]\<close> reaches the cell counted from the end
  (every index in \<open>[-side, side)\<close> is accepted), and an index \<open>\<ge> side\<close> raises
  \<open>IndexError\<close>.
\<close>

theorem public_access_index_rules:
  assumes wf: "wf_board b"
  shows "(- int (board_size b) \<le> row \<and> row < int (board_size b) \<and>
          - int (board_size b) \<le> col \<and> col < int (board_size b) \<longrightarrow>
            get b row col = Inr (cell b (from_end (board_size b) row) (from_end (board_size b) col)) \<and>
            set_value b row col v =
              Inr (put b (from_end (board_size b) row) (from_end (board_size b) col) v) \<and>
            is_empty_cell b row col =
              Inr (is_empty b (from_end (board_size b) row) (from_end (board_size b) col))) \<and>
         (int (board_size b) \<le> row \<or> int (board_size b) \<le> col \<longrightarrow>
            get b row col = Inl IndexError \<and> set_value b row col v = Inl IndexError \<and>
            is_empty_cell b row col = Inl IndexError)"
proof (intro conjI impI)
  assume rng: "- int (board_size b) \<le> row \<and> row < int (board_size b) \<and>
          - int (board_size b) \<le> col \<and> col < int (board_size b)"
  let ?r = "from_end (board_size b) row" and ?c = "from_end (board_size b) col"
  have len: "length (board_grid b) = board_size b" using wf by (simp add: wf_board_def)
  have r: "py_index (board_grid b) row = Inr ?r" "?r < board_size b"
    using py_index_in_range[of "board_grid b" row] rng len by simp_all
  have rowlen: "length (board_grid b ! ?r) = board_size b"
    using wf r(2) by (rule wf_board_row_length)
  have c: "py_index (board_grid b ! ?r) col = Inr ?c"
    using py_index_in_range(1)[of "board_grid b ! ?r" col] rng rowlen by simp
  show g: "get b row col = Inr (cell b ?r ?c)"
    by (simp add: get_def py_getitem_def r c cell_def)
  show "set_value b row col v = Inr (put b ?r ?c v)"
    by (simp add: set_value_def py_setitem_def r c put_def)
  show "is_empty_cell b row col = Inr (is_empty b ?r ?c)"
    by (simp add: is_empty_cell_def g is_empty_def)
next
  assume big: "int (board_size b) \<le> row \<or> int (board_size b) \<le> col"
  have len: "length (board_grid b) = board_size b" using wf by (simp add: wf_board_def)
  have g: "get b row col = Inl IndexError"
  proof (cases "int (board_size b) \<le> row")
    case True
    then show ?thesis by (simp add: get_def py_getitem_def py_index_too_large len)
  next
    case False
    with big have col: "int (board_size b) \<le> col" by simp
    from py_index_cases[of "board_grid b" row] show ?thesis
    proof
      assume "py_index (board_grid b) row = Inl IndexError"
      then show ?thesis by (simp add: get_def py_getitem_def)
    next
      assume "\<exists>j<length (board_grid b). py_index (board_grid b) row = Inr j"
      then obtain j where j: "j < board_size b" "py_index (board_grid b) row = Inr j"
        using len by auto
      have "length (board_grid b ! j) = board_size b" using wf j(1) by (rule wf_board_row_length)
      then show ?thesis using col j(2) by (simp add: get_def py_getitem_def py_index_too_large)
    qed
  qed
  show "get b row col = Inl IndexError" by (rule g)
  show "is_empty_cell b row col = Inl IndexError" by (simp add: is_empty_cell_def g)
  show "set_value b row col v = Inl IndexError"
  proof (cases "int (board_size b) \<le> row")
    case True
    then show ?thesis by (simp add: set_value_def py_index_too_large len)
  next
    case False
    with big have col: "int (board_size b) \<le> col" by simp
    from py_index_cases[of "board_grid b" row] show ?thesis
    proof
      assume "py_index (board_grid b) row = Inl IndexError"
      then show ?thesis by (simp add: set_value_def)
    next
      assume "\<exists>j<length (board_grid b). py_index (board_grid b) row = Inr j"
      then obtain j where j: "j < board_size b" "py_index (board_grid b) row = Inr j"
        using len by auto
      have "length (board_grid b ! j) = board_size b" using wf j(1) by (rule wf_board_row_length)
      then show ?thesis using col j(2)
        by (simp add: set_value_def py_setitem_def py_index_too_large)
    qed
  qed
qed

lemma wf_example4: "wf_board example4"
  by (simp add: wf_board_def example4_def)

theorem public_access_index_rules_witness:
  "wf_board example4 \<and> get example4 (- 1) 0 = Inr 4 \<and>
   set_value example4 (- 1) 0 9 = Inr (put example4 3 0 9) \<and>
   is_empty_cell example4 (- 1) 0 = Inr False \<and>
   get example4 4 0 = Inl IndexError \<and> set_value example4 0 4 9 = Inl IndexError \<and>
   is_empty_cell example4 4 0 = Inl IndexError"
  using public_access_index_rules[OF wf_example4, of "- 1" 0 9]
    public_access_index_rules[OF wf_example4, of 4 0 9]
    public_access_index_rules[OF wf_example4, of 0 4 9]
  by (simp add: wf_example4 from_end_def) (simp add: example4_def cell_def is_empty_def)


section \<open>Construction from external representations\<close>

lemma decode_char_not_alnum: "\<not> isalnum ch \<Longrightarrow> decode_char ch = Inr 0"
  by (simp add: decode_char_def)

lemma decode_char_lower:
  "97 \<le> (of_char ch :: nat) \<Longrightarrow> (of_char ch :: nat) \<le> 122 \<Longrightarrow>
   decode_char ch = Inr (int (of_char ch) - 87)"
  by (simp add: decode_char_def isalnum_def int36_def Let_def)

lemma decode_char_Inl:
  "decode_char ch = Inl e \<Longrightarrow>
   e = ValueError (InvalidLiteral ch) \<and> isalnum ch \<and> 128 \<le> (of_char ch :: nat)"
  by (auto simp: decode_char_def isalnum_def int36_def Let_def split: if_splits)

lemma decode_cells_Inl:
  "decode_cells side p = Inl e \<Longrightarrow>
   \<exists>ch\<in>set p. decode_char ch = Inl e \<or>
     (\<exists>v. decode_char ch = Inr v \<and> int side < v \<and> e = ValueError (InvalidValue v))"
proof (induction p)
  case Nil
  then show ?case by simp
next
  case (Cons ch rest)
  show ?case
  proof (cases "decode_char ch")
    case (Inl e')
    with Cons.prems show ?thesis by simp
  next
    case (Inr v)
    show ?thesis
    proof (cases "int side < v")
      case True
      with Inr Cons.prems show ?thesis by simp
    next
      case False
      with Inr Cons.prems have "decode_cells side rest = Inl e"
        by (simp split: sum.splits)
      from Cons.IH[OF this] show ?thesis by auto
    qed
  qed
qed

lemma decode_cells_Inr:
  "\<forall>ch\<in>set p. \<exists>v. decode_char ch = Inr v \<and> v \<le> int side \<Longrightarrow>
   \<exists>vals. decode_cells side p = Inr vals \<and> length vals = length p \<and>
     (\<forall>k<length p. decode_char (p ! k) = Inr (vals ! k))"
proof (induction p)
  case Nil
  then show ?case by simp
next
  case (Cons ch rest)
  then obtain v where v: "decode_char ch = Inr v" "v \<le> int side" by auto
  from Cons obtain vals where vals: "decode_cells side rest = Inr vals"
    "length vals = length rest" "\<forall>k<length rest. decode_char (rest ! k) = Inr (vals ! k)"
    by auto
  have "\<forall>k<length (ch # rest). decode_char ((ch # rest) ! k) = Inr ((v # vals) ! k)"
    using v(1) vals(3) by (auto simp: nth_Cons split: nat.splits)
  then show ?case using v vals by simp
qed

lemma decode_char_a: "decode_char (CHR ''a'') = Inr 10"
  by (simp add: decode_char_def isalnum_def int36_def)
lemma decode_char_0: "decode_char (CHR ''0'') = Inr 0"
  by (simp add: decode_char_def isalnum_def int36_def)


text \<open>
  C9, as the claim states it, fails: a character that \<open>isalnum\<close> accepts and
  \<open>int(ch, 36)\<close> does not (here U+00E9) makes \<open>from_string\<close> raise, although the
  stripped length is right and no decoded value exceeds the side.
\<close>

theorem from_string_rejects_latin1_letter:
  "from_string (init 2) (CHR 0xE9 # ''...............'') =
     Inl (ValueError (InvalidLiteral (CHR 0xE9))) \<and>
   length (strip_puzzle (CHR 0xE9 # ''...............'')) = (board_size (init 2))\<^sup>2"
  by (simp add: from_string_def strip_puzzle_def init_def decode_char_def isalnum_def int36_def)


text \<open>
  C9, amended.  After \<open>.\<close> is replaced and blanks and newlines are stripped, a character
  that is not alphanumeric decodes to 0 and a lowercase letter to its base-36 value.
  \<open>from_string\<close> fails in exactly three ways: a wrong stripped length, a decoded value
  above the side, and an alphanumeric character outside ASCII, which \<open>int(ch, 36)\<close>
  refuses.  When the length is right and every character decodes to a value of at most
  the side, the board is built and each cell holds the decoded value of its character.
\<close>

theorem from_string_outcomes:
  "(\<forall>ch. \<not> isalnum ch \<longrightarrow> decode_char ch = Inr 0) \<and>
   (\<forall>ch. 97 \<le> (of_char ch :: nat) \<and> (of_char ch :: nat) \<le> 122 \<longrightarrow>
      decode_char ch = Inr (int (of_char ch) - 87)) \<and>
   (from_string b p = Inl e \<longrightarrow>
      e = ValueError PuzzleLength \<and> length (strip_puzzle p) \<noteq> (board_size b)\<^sup>2 \<or>
      (\<exists>ch\<in>set (strip_puzzle p). \<exists>v. e = ValueError (InvalidValue v) \<and>
         decode_char ch = Inr v \<and> int (board_size b) < v) \<or>
      (\<exists>ch\<in>set (strip_puzzle p). e = ValueError (InvalidLiteral ch) \<and> isalnum ch \<and>
         128 \<le> (of_char ch :: nat))) \<and>
   (length (strip_puzzle p) = (board_size b)\<^sup>2 \<and>
    (\<forall>ch\<in>set (strip_puzzle p). \<exists>v. decode_char ch = Inr v \<and> v \<le> int (board_size b)) \<longrightarrow>
      (\<exists>b'. from_string b p = Inr b' \<and> board_n b' = board_n b \<and>
         board_size b' = board_size b \<and>
         (\<forall>i<board_size b. \<forall>j<board_size b.
            decode_char (strip_puzzle p ! (i * board_size b + j)) = Inr (cell b' i j))))"
proof (intro conjI allI impI)
  fix ch
  show "\<not> isalnum ch \<Longrightarrow> decode_char ch = Inr 0" by (rule decode_char_not_alnum)
  show "97 \<le> (of_char ch :: nat) \<and> (of_char ch :: nat) \<le> 122 \<Longrightarrow>
      decode_char ch = Inr (int (of_char ch) - 87)"
    by (simp add: decode_char_lower)
next
  assume fail: "from_string b p = Inl e"
  show "e = ValueError PuzzleLength \<and> length (strip_puzzle p) \<noteq> (board_size b)\<^sup>2 \<or>
      (\<exists>ch\<in>set (strip_puzzle p). \<exists>v. e = ValueError (InvalidValue v) \<and>
         decode_char ch = Inr v \<and> int (board_size b) < v) \<or>
      (\<exists>ch\<in>set (strip_puzzle p). e = ValueError (InvalidLiteral ch) \<and> isalnum ch \<and>
         128 \<le> (of_char ch :: nat))"
  proof (cases "length (strip_puzzle p) = (board_size b)\<^sup>2")
    case False
    with fail show ?thesis by (simp add: from_string_def)
  next
    case True
    with fail have "decode_cells (board_size b) (strip_puzzle p) = Inl e"
      by (simp add: from_string_def split: sum.splits)
    from decode_cells_Inl[OF this] obtain ch where ch: "ch \<in> set (strip_puzzle p)"
      "decode_char ch = Inl e \<or>
        (\<exists>v. decode_char ch = Inr v \<and> int (board_size b) < v \<and> e = ValueError (InvalidValue v))"
      by blast
    from ch(2) show ?thesis
    proof
      assume "decode_char ch = Inl e"
      from decode_char_Inl[OF this] ch(1) show ?thesis by blast
    next
      assume "\<exists>v. decode_char ch = Inr v \<and> int (board_size b) < v \<and>
        e = ValueError (InvalidValue v)"
      with ch(1) show ?thesis by blast
    qed
  qed
next
  assume ok: "length (strip_puzzle p) = (board_size b)\<^sup>2 \<and>
    (\<forall>ch\<in>set (strip_puzzle p). \<exists>v. decode_char ch = Inr v \<and> v \<le> int (board_size b))"
  let ?s = "board_size b"
  from ok decode_cells_Inr[of "strip_puzzle p" ?s] obtain vals where
    vals: "decode_cells ?s (strip_puzzle p) = Inr vals" "length vals = length (strip_puzzle p)"
      "\<forall>k<length (strip_puzzle p). decode_char (strip_puzzle p ! k) = Inr (vals ! k)"
    by blast
  let ?b' = "b\<lparr>board_grid := map (\<lambda>i. map (\<lambda>j. vals ! (i * ?s + j)) [0..<?s]) [0..<?s]\<rparr>"
  have res: "from_string b p = Inr ?b'"
    using ok vals(1) by (simp add: from_string_def)
  have "decode_char (strip_puzzle p ! (i * ?s + j)) = Inr (cell ?b' i j)"
    if ij: "i < ?s" "j < ?s" for i j
  proof -
    have "i * ?s + j < ?s * ?s"
    proof -
      have "i * ?s + j < i * ?s + ?s" using ij(2) by simp
      also have "\<dots> = (Suc i) * ?s" by simp
      also have "\<dots> \<le> ?s * ?s" using ij(1) by (intro mult_le_mono1) simp
      finally show ?thesis .
    qed
    then have "i * ?s + j < length (strip_puzzle p)" using ok by (simp add: power2_eq_square)
    with vals(3) have "decode_char (strip_puzzle p ! (i * ?s + j)) = Inr (vals ! (i * ?s + j))"
      by simp
    moreover have "cell ?b' i j = vals ! (i * ?s + j)" using ij by (simp add: cell_def)
    ultimately show ?thesis by simp
  qed
  with res show "\<exists>b'. from_string b p = Inr b' \<and> board_n b' = board_n b \<and>
         board_size b' = board_size b \<and>
         (\<forall>i<board_size b. \<forall>j<board_size b.
            decode_char (strip_puzzle p ! (i * board_size b + j)) = Inr (cell b' i j))"
    by (intro exI[of _ ?b']) simp
qed

theorem from_string_outcomes_witness:
  "decode_char (CHR ''_'') = Inr 0 \<and> decode_char (CHR ''a'') = Inr 10 \<and>
   (\<exists>b'. from_string (init 4) (CHR ''a'' # replicate 255 (CHR ''.'')) = Inr b' \<and>
      cell b' 0 0 = 10)"
proof -
  let ?p = "CHR ''a'' # replicate 255 (CHR ''.'')"
  have strip: "strip_puzzle ?p = CHR ''a'' # replicate 255 (CHR ''0'')"
    by (simp add: strip_puzzle_def)
  have side: "board_size (init 4) = 16" by (simp add: init_def)
  have hyp: "length (strip_puzzle ?p) = (board_size (init 4))\<^sup>2 \<and>
    (\<forall>ch\<in>set (strip_puzzle ?p). \<exists>v. decode_char ch = Inr v \<and> v \<le> int (board_size (init 4)))"
    unfolding strip side by (simp add: decode_char_a decode_char_0)
  from from_string_outcomes[of "init 4" ?p] hyp
  obtain b' where b': "from_string (init 4) ?p = Inr b'"
    "\<forall>i<board_size (init 4). \<forall>j<board_size (init 4).
            decode_char (strip_puzzle ?p ! (i * board_size (init 4) + j)) = Inr (cell b' i j)"
    by blast
  from b'(2) have "decode_char (strip_puzzle ?p ! 0) = Inr (cell b' 0 0)"
    unfolding side by (metis add_0 mult_zero_left zero_less_numeral)
  then have "cell b' 0 0 = 10"
    unfolding strip by (simp add: decode_char_a)
  moreover have "decode_char (CHR ''_'') = Inr 0"
    using from_string_outcomes[of "init 4" ?p] by (simp add: isalnum_def)
  ultimately show ?thesis using b'(1) decode_char_a by blast
qed


text \<open>
  C7.  \<open>from_list\<close> tests the shape of the grid only: a grid of the right shape with a
  value above the side is accepted, where \<open>from_string\<close> rejects such a value.
\<close>

theorem from_list_accepts_value_above_side:
  "from_list (init 2) [[5, 0, 0, 0], [0, 0, 0, 0], [0, 0, 0, 0], [0, 0, 0, 0]] =
     Inr \<lparr>board_n = 2, board_size = 4,
          board_grid = [[5, 0, 0, 0], [0, 0, 0, 0], [0, 0, 0, 0], [0, 0, 0, 0]]\<rparr>"
  by (simp add: from_list_def init_def)


theorem from_list_accepts_value_above_side_witness:
  "\<exists>b. from_list (init 2) [[5, 0, 0, 0], [0, 0, 0, 0], [0, 0, 0, 0], [0, 0, 0, 0]] = Inr b \<and>
       cell b 0 0 = 5 \<and> int (board_size b) < cell b 0 0"
  using from_list_accepts_value_above_side by (simp add: cell_def)

section \<open>The search on well-formed boards\<close>

subsection \<open>Cells of a well-formed board\<close>

lemma wf_boardD:
  assumes "wf_board b"
  shows "0 < board_n b" "board_size b = board_n b * board_n b"
    "length (board_grid b) = board_size b"
    "r < board_size b \<Longrightarrow> length (board_grid b ! r) = board_size b"
  using assms by (simp_all add: wf_board_def list_all_length)

lemma board_n_put [simp]: "board_n (put b r c v) = board_n b"
  by (simp add: put_def)

lemma board_size_put [simp]: "board_size (put b r c v) = board_size b"
  by (simp add: put_def)

lemma wf_board_put: "wf_board b \<Longrightarrow> wf_board (put b r c v)"
proof (cases "r < length (board_grid b)")
  case True
  assume "wf_board b"
  with True show ?thesis
    by (auto simp: wf_board_def put_def list_all_length nth_list_update)
next
  case False
  assume "wf_board b"
  with False show ?thesis
    by (simp add: wf_board_def put_def list_update_beyond cong: conj_cong)
qed

lemma cell_put:
  assumes "wf_board b" "r < board_size b" "c < board_size b"
  shows "cell (put b r c v) r' c' = (if r' = r \<and> c' = c then v else cell b r' c')"
  using assms wf_boardD(3,4)[OF assms(1)]
  by (auto simp: cell_def put_def nth_list_update)

lemma put_put: "put (put b r c u) r c v = put b r c v"
proof (cases "r < length (board_grid b)")
  case True
  then show ?thesis by (simp add: put_def)
next
  case False
  then show ?thesis by (simp add: put_def list_update_beyond)
qed

lemma put_cell: "put b r c (cell b r c) = b"
  by (simp add: put_def cell_def)

lemma put_restore: "cell b r c = 0 \<Longrightarrow> put (put b r c v) r c 0 = b"
  using put_cell[of b r c] by (simp add: put_put)

lemma is_empty_put:
  assumes "wf_board b" "r < board_size b" "c < board_size b"
  shows "is_empty (put b r c v) r' c' = (if r' = r \<and> c' = c then v = 0 else is_empty b r' c')"
  by (simp add: is_empty_def cell_put[OF assms])

lemma scan_order_put [simp]: "scan_order (put b r c v) = scan_order b"
  by (simp add: scan_order_def)

lemma set_scan_order: "(r, c) \<in> set (scan_order b) \<longleftrightarrow> r < board_size b \<and> c < board_size b"
  by (auto simp: scan_order_def)

lemma distinct_scan_order: "distinct (scan_order b)"
  by (simp add: scan_order_def distinct_product)

lemma count_empty_put:
  assumes wf: "wf_board b" and r: "r < board_size b" and c: "c < board_size b"
    and e: "is_empty b r c" and v: "v \<noteq> 0"
  shows "count_empty (put b r c v) < count_empty b"
proof -
  let ?P = "\<lambda>(r', c'). is_empty b r' c'"
  have "filter (\<lambda>(r', c'). is_empty (put b r c v) r' c') (scan_order b) =
        filter (\<lambda>p. ?P p \<and> p \<noteq> (r, c)) (scan_order b)"
    by (rule filter_cong) (auto simp: is_empty_put[OF wf r c] v)
  also have "\<dots> = filter (\<lambda>p. p \<noteq> (r, c)) (filter ?P (scan_order b))"
    by (simp add: conj_commute)
  finally have eq: "filter (\<lambda>(r', c'). is_empty (put b r c v) r' c') (scan_order b) =
        filter (\<lambda>p. p \<noteq> (r, c)) (filter ?P (scan_order b))" .
  have "(r, c) \<in> set (filter ?P (scan_order b))"
    using r c e by (simp add: set_scan_order)
  then have "length (filter (\<lambda>p. p \<noteq> (r, c)) (filter ?P (scan_order b))) <
      length (filter ?P (scan_order b))"
    by (intro length_filter_less[where x = "(r, c)"]) simp_all
  then show ?thesis
    unfolding count_empty_def scan_order_put eq .
qed

subsection \<open>Rows, columns and boxes as sets of cells\<close>

lemma set_row:
  assumes "wf_board b" "r < board_size b"
  shows "set (board_grid b ! r) = (\<lambda>c. cell b r c) ` {..<board_size b}"
proof -
  have "length (board_grid b ! r) = board_size b" using assms by (rule wf_boardD(4))
  then show ?thesis
    unfolding cell_def set_conv_nth by auto
qed

lemma set_column: "set (column_values b c) = (\<lambda>r. cell b r c) ` {..<board_size b}"
  by (auto simp: column_values_def)

lemma set_box:
  "set (box_values b br bc) =
     (\<lambda>(r, c). cell b r c) ` ({br..<br + board_n b} \<times> {bc..<bc + board_n b})"
  by (auto simp: box_values_def)

lemma in_box_iff:
  assumes "0 < (n::nat)"
  shows "(r div n) * n \<le> r' \<and> r' < (r div n) * n + n \<longleftrightarrow> r' div n = r div n"
proof
  assume a: "(r div n) * n \<le> r' \<and> r' < (r div n) * n + n"
  then have "r div n \<le> r' div n" using assms
    by (metis div_le_mono div_mult_self_is_m)
  moreover from a have "r' < (Suc (r div n)) * n" by simp
  then have "r' div n < Suc (r div n)" using assms
    by (simp add: less_mult_imp_div_less)
  ultimately show "r' div n = r div n" by simp
next
  assume e: "r' div n = r div n"
  have "(r' div n) * n \<le> r'" by simp
  moreover have "r' < (r' div n) * n + n" using assms
    by (metis add.commute dividend_less_div_times mult.commute)
  ultimately show "(r div n) * n \<le> r' \<and> r' < (r div n) * n + n" using e by simp
qed

lemma box_in_range:
  assumes "0 < (n::nat)" "r < n * n" "r' div n = r div n"
  shows "r' < n * n"
proof -
  have "r div n < n" using assms(1,2) by (simp add: less_mult_imp_div_less)
  then have "Suc (r' div n) \<le> n" using assms(3) by simp
  then have "Suc (r' div n) * n \<le> n * n" by (rule mult_le_mono1)
  moreover have "r' < Suc (r' div n) * n" using assms(1)
    by (metis add.commute dividend_less_div_times mult.commute mult_Suc)
  ultimately show ?thesis by simp
qed

lemma related_refl [simp]: "related n p p"
  by (simp add: related_def)

lemma related_sym: "related n p q \<Longrightarrow> related n q p"
  by (auto simp: related_def)

lemma consistent_iff:
  "consistent b \<longleftrightarrow>
     (\<forall>r c r' c'. r < board_size b \<and> c < board_size b \<and> r' < board_size b \<and> c' < board_size b \<and>
        (r, c) \<noteq> (r', c') \<and> related (board_n b) (r, c) (r', c') \<and> cell b r c \<noteq> 0 \<longrightarrow>
        cell b r c \<noteq> cell b r' c')"
proof
  assume "consistent b"
  then have *: "\<And>p q. p \<in> set (scan_order b) \<Longrightarrow> q \<in> set (scan_order b) \<Longrightarrow>
     \<not> (p \<noteq> q \<and> related (board_n b) p q \<and> cell b (fst p) (snd p) \<noteq> 0 \<and>
           cell b (fst p) (snd p) = cell b (fst q) (snd q))"
    unfolding consistent_def list_all_iff by blast
  show "\<forall>r c r' c'. r < board_size b \<and> c < board_size b \<and> r' < board_size b \<and> c' < board_size b \<and>
        (r, c) \<noteq> (r', c') \<and> related (board_n b) (r, c) (r', c') \<and> cell b r c \<noteq> 0 \<longrightarrow>
        cell b r c \<noteq> cell b r' c'"
  proof (intro allI impI)
    fix r c r' c'
    assume a: "r < board_size b \<and> c < board_size b \<and> r' < board_size b \<and> c' < board_size b \<and>
        (r, c) \<noteq> (r', c') \<and> related (board_n b) (r, c) (r', c') \<and> cell b r c \<noteq> 0"
    then have "(r, c) \<in> set (scan_order b)" "(r', c') \<in> set (scan_order b)"
      by (simp_all add: set_scan_order)
    from *[OF this] a show "cell b r c \<noteq> cell b r' c'" by auto
  qed
next
  assume a: "\<forall>r c r' c'. r < board_size b \<and> c < board_size b \<and> r' < board_size b \<and> c' < board_size b \<and>
        (r, c) \<noteq> (r', c') \<and> related (board_n b) (r, c) (r', c') \<and> cell b r c \<noteq> 0 \<longrightarrow>
        cell b r c \<noteq> cell b r' c'"
  show "consistent b"
    unfolding consistent_def list_all_iff
  proof (intro ballI)
    fix p q
    assume "p \<in> set (scan_order b)" "q \<in> set (scan_order b)"
    then have "fst p < board_size b" "snd p < board_size b" "fst q < board_size b"
      "snd q < board_size b"
      using set_scan_order[of "fst p" "snd p" b] set_scan_order[of "fst q" "snd q" b] by simp_all
    with a[rule_format, of "fst p" "snd p" "fst q" "snd q"]
    show "\<not> (p \<noteq> q \<and> related (board_n b) p q \<and> cell b (fst p) (snd p) \<noteq> 0 \<and>
           cell b (fst p) (snd p) = cell b (fst q) (snd q))"
      by auto
  qed
qed

lemma finite_get_candidates [simp]: "finite (get_candidates b r c)"
  by (simp add: get_candidates_def Let_def split: prod.splits)

lemma get_candidates_subset0:
  "get_candidates b r c \<subseteq> set (map int [1..<board_size b + 1])"
  unfolding get_candidates_def Let_def
  apply (simp only: split: if_splits prod.splits)
  apply blast
  done

lemma get_candidates_subset:
  "get_candidates b r c \<subseteq> int ` {1..<board_size b + 1}"
  using get_candidates_subset0[of b r c] by (simp only: set_map set_upt)

lemma card_get_candidates: "card (get_candidates b r c) \<le> board_size b"
proof -
  have "card (get_candidates b r c) \<le> card (int ` {1..<board_size b + 1})"
    by (rule card_mono) (simp, rule get_candidates_subset)
  also have "\<dots> \<le> card {1..<board_size b + 1}" by (rule card_image_le) simp
  finally show ?thesis by simp
qed

lemma no_conflict_iff: assumes "r < board_size b" "c < board_size b"
 shows "(\<not> (\<exists>c'<board_size b. cell b r c' = v) \<and> \<not> (\<exists>r'<board_size b. cell b r' c = v) \<and>
         \<not> (\<exists>r'<board_size b.
               \<exists>c'<board_size b.
                  r' div board_n b = r div board_n b \<and>
                  c' div board_n b = c div board_n b \<and> cell b r' c' = v)) =
        (\<forall>r'<board_size b.
            \<forall>c'<board_size b.
               r = r' \<or>
               c = c' \<or>
               r div board_n b = r' div board_n b \<and>
               c div board_n b = c' div board_n b \<longrightarrow>
               cell b r' c' \<noteq> v)"
  (is "?A \<and> ?B \<and> ?C \<longleftrightarrow> ?R")
proof
  assume abc: "?A \<and> ?B \<and> ?C"
  show ?R
  proof (intro allI impI)
    fix r' c'
    assume lt: "r' < board_size b" "c' < board_size b"
      and rel: "r = r' \<or> c = c' \<or>
        r div board_n b = r' div board_n b \<and> c div board_n b = c' div board_n b"
    from rel show "cell b r' c' \<noteq> v"
    proof (elim disjE)
      assume "r = r'" with abc lt show ?thesis by blast
    next
      assume "c = c'" with abc lt show ?thesis by blast
    next
      assume "r div board_n b = r' div board_n b \<and> c div board_n b = c' div board_n b"
      with abc lt show ?thesis by metis
    qed
  qed
next
  assume R: ?R
  have ?A using R assms by blast
  moreover have ?B using R assms by blast
  moreover have ?C using R by metis
  ultimately show "?A \<and> ?B \<and> ?C" by blast
qed

lemma get_candidates_iff:
  assumes wf: "wf_board b" and r: "r < board_size b" and c: "c < board_size b"
  shows "v \<in> get_candidates b r c \<longleftrightarrow>
    is_empty b r c \<and> 1 \<le> v \<and> v \<le> int (board_size b) \<and>
    (\<forall>r'<board_size b. \<forall>c'<board_size b.
       related (board_n b) (r, c) (r', c') \<longrightarrow> cell b r' c' \<noteq> v)"
    (is "?L \<longleftrightarrow> ?R")
proof -
  let ?n = "board_n b" and ?s = "board_size b"
  note n = wf_boardD(1)[OF wf] and s = wf_boardD(2)[OF wf]
  have range: "v \<in> set (map int [1..<?s + 1]) \<longleftrightarrow> 1 \<le> v \<and> v \<le> int ?s"
  proof
    assume "v \<in> set (map int [1..<?s + 1])"
    then show "1 \<le> v \<and> v \<le> int ?s" by auto
  next
    assume a: "1 \<le> v \<and> v \<le> int ?s"
    then have "v = int (nat v)" "1 \<le> nat v" "nat v < ?s + 1" by auto
    then show "v \<in> set (map int [1..<?s + 1])"
      by (metis atLeastLessThan_iff image_eqI set_map set_upt)
  qed
  have row: "v \<in> set (board_grid b ! r) \<longleftrightarrow> (\<exists>c'<?s. cell b r c' = v)"
    unfolding set_row[OF wf r] by auto
  have col: "v \<in> set (column_values b c) \<longleftrightarrow> (\<exists>r'<?s. cell b r' c = v)"
    unfolding set_column by auto
  have box: "v \<in> set (box_values b ((r div ?n) * ?n) ((c div ?n) * ?n)) \<longleftrightarrow>
     (\<exists>r'<?s. \<exists>c'<?s. r' div ?n = r div ?n \<and> c' div ?n = c div ?n \<and> cell b r' c' = v)"
    (is "?A \<longleftrightarrow> ?B")
  proof
    assume ?A
    then obtain r' c' where rc: "(r div ?n) * ?n \<le> r' \<and> r' < (r div ?n) * ?n + ?n"
      "(c div ?n) * ?n \<le> c' \<and> c' < (c div ?n) * ?n + ?n" "cell b r' c' = v"
      unfolding set_box by auto
    from rc(1,2) have d: "r' div ?n = r div ?n" "c' div ?n = c div ?n"
      using in_box_iff[OF n] by blast+
    have "r' < ?s" "c' < ?s"
      using box_in_range[OF n _ d(1)] box_in_range[OF n _ d(2)] r c s by simp_all
    with d rc(3) show ?B by blast
  next
    assume ?B
    then obtain r' c' where rc: "r' div ?n = r div ?n" "c' div ?n = c div ?n" "cell b r' c' = v"
      by blast
    from rc(1,2) have "(r div ?n) * ?n \<le> r' \<and> r' < (r div ?n) * ?n + ?n"
      "(c div ?n) * ?n \<le> c' \<and> c' < (c div ?n) * ?n + ?n"
      using in_box_iff[OF n] by blast+
    with rc(3) show ?A unfolding set_box by force
  qed
  have "?L \<longleftrightarrow> is_empty b r c \<and> (1 \<le> v \<and> v \<le> int ?s) \<and> \<not> (\<exists>c'<?s. cell b r c' = v) \<and>
      \<not> (\<exists>r'<?s. cell b r' c = v) \<and>
      \<not> (\<exists>r'<?s. \<exists>c'<?s. r' div ?n = r div ?n \<and> c' div ?n = c div ?n \<and> cell b r' c' = v)"
    unfolding range[symmetric] row[symmetric] col[symmetric] box[symmetric]
    by (auto simp: get_candidates_def Let_def get_box_index_def)
  also have "\<dots> \<longleftrightarrow> ?R"
    unfolding related_def fst_conv snd_conv using no_conflict_iff[OF r c, of v] by simp
  finally show ?thesis .
qed

lemma get_candidates_nonzero: "v \<in> get_candidates b r c \<Longrightarrow> v \<noteq> 0"
  using get_candidates_subset[of b r c] by auto

lemma consistent_put:
  assumes wf: "wf_board b" and r: "r < board_size b" and c: "c < board_size b"
    and v: "v \<in> get_candidates b r c" and cons: "consistent b"
  shows "consistent (put b r c v)"
proof -
  from v have e: "is_empty b r c" and v0: "v \<noteq> 0"
    and free: "\<And>r' c'. r' < board_size b \<Longrightarrow> c' < board_size b \<Longrightarrow>
       related (board_n b) (r, c) (r', c') \<Longrightarrow> cell b r' c' \<noteq> v"
    unfolding get_candidates_iff[OF wf r c] by auto
  show ?thesis
    unfolding consistent_iff
  proof (intro allI impI, elim conjE)
    fix r1 c1 r2 c2
    assume a: "r1 < board_size (put b r c v)" "c1 < board_size (put b r c v)"
      "r2 < board_size (put b r c v)" "c2 < board_size (put b r c v)"
      "(r1, c1) \<noteq> (r2, c2)" "related (board_n (put b r c v)) (r1, c1) (r2, c2)"
      "cell (put b r c v) r1 c1 \<noteq> 0"
    show "cell (put b r c v) r1 c1 \<noteq> cell (put b r c v) r2 c2"
    proof (cases "(r1, c1) = (r, c)")
      case True
      with a(5) have "(r2, c2) \<noteq> (r, c)" by auto
      then have "cell (put b r c v) r2 c2 = cell b r2 c2"
        by (auto simp: cell_put[OF wf r c])
      moreover have "cell b r2 c2 \<noteq> v" using free[of r2 c2] a True by simp
      ultimately show ?thesis using True by (simp add: cell_put[OF wf r c])
    next
      case False
      then have c1: "cell (put b r c v) r1 c1 = cell b r1 c1"
        by (auto simp: cell_put[OF wf r c])
      show ?thesis
      proof (cases "(r2, c2) = (r, c)")
        case True
        have "related (board_n b) (r, c) (r1, c1)" using a(6) True by (simp add: related_sym)
        then have "cell b r1 c1 \<noteq> v" using free[of r1 c1] a by simp
        then show ?thesis using True c1 by (simp add: cell_put[OF wf r c])
      next
        case False
        then have "cell (put b r c v) r2 c2 = cell b r2 c2"
          by (auto simp: cell_put[OF wf r c])
        moreover have "cell b r1 c1 \<noteq> cell b r2 c2"
          using cons a c1 unfolding consistent_iff by simp
        ultimately show ?thesis using c1 by simp
      qed
    qed
  qed
qed

subsection \<open>Variable selection\<close>

lemma first_empty_Some:
  "first_empty b ps = Some (r, c) \<Longrightarrow> (r, c) \<in> set ps \<and> is_empty b r c"
  by (induction b ps rule: first_empty.induct) (auto split: if_splits)

lemma first_empty_None:
  "first_empty b ps = None \<Longrightarrow> (r, c) \<in> set ps \<Longrightarrow> \<not> is_empty b r c"
  by (induction b ps rule: first_empty.induct) (auto split: if_splits)

lemma mrv_scan_Some:
  "mrv_scan b ps m best = Some (r, c) \<Longrightarrow>
   ((r, c) \<in> set ps \<and> is_empty b r c) \<or> best = Some (r, c)"
  by (induction b ps m best rule: mrv_scan.induct) (auto simp: Let_def split: if_splits)

lemma mrv_scan_None:
  "mrv_scan b ps m best = None \<Longrightarrow> board_size b < m \<Longrightarrow> (r, c) \<in> set ps \<Longrightarrow>
   \<not> is_empty b r c"
proof (induction b ps m best rule: mrv_scan.induct)
  case (1 board min_candidates best_cell)
  then show ?case by simp
next
  case (2 board r' c' rest m best)
  show ?case
  proof (cases "is_empty board r' c'")
    case False
    with 2 show ?thesis by auto
  next
    case True
    let ?k = "card (get_candidates board r' c')"
    have k: "?k < m" using card_get_candidates[of board r' c'] "2.prems"(2) by simp
    from True "2.prems"(1) k have k0: "?k \<noteq> 0" by (auto simp: Let_def split: if_splits)
    with True "2.prems"(1) k have "mrv_scan board rest ?k (Some (r', c')) = None"
      by (simp add: Let_def)
    moreover have "\<And>ps m p. mrv_scan board ps m (Some p) \<noteq> None"
    proof -
      fix ps m p show "mrv_scan board ps m (Some p) \<noteq> None"
        by (induction board ps m "Some p" arbitrary: p rule: mrv_scan.induct)
          (auto simp: Let_def)
    qed
    ultimately show ?thesis by blast
  qed
qed

lemma select_Some:
  assumes "select_unassigned_variable self b = Some (r, c)"
  shows "r < board_size b \<and> c < board_size b \<and> is_empty b r c"
proof (cases "use_mrv self")
  case True
  with assms have "mrv_scan b (scan_order b) (board_size b + 1) None = Some (r, c)"
    by (simp add: select_unassigned_variable_def)
  from mrv_scan_Some[OF this] show ?thesis by (simp add: set_scan_order)
next
  case False
  with assms have "first_empty b (scan_order b) = Some (r, c)"
    by (simp add: select_unassigned_variable_def)
  from first_empty_Some[OF this] show ?thesis by (simp add: set_scan_order)
qed

lemma select_None:
  assumes "select_unassigned_variable self b = None" "r < board_size b" "c < board_size b"
  shows "\<not> is_empty b r c"
proof (cases "use_mrv self")
  case True
  with assms have "mrv_scan b (scan_order b) (board_size b + 1) None = None"
    by (simp add: select_unassigned_variable_def)
  from mrv_scan_None[OF this] assms(2,3) show ?thesis by (simp add: set_scan_order)
next
  case False
  with assms have "first_empty b (scan_order b) = None"
    by (simp add: select_unassigned_variable_def)
  from first_empty_None[OF this] assms(2,3) show ?thesis by (simp add: set_scan_order)
qed

subsection \<open>A failed search leaves the board as it was\<close>

lemma backtrack_restores:
  "backtrack d self vis st b = Some (ok, st', b') \<Longrightarrow> wf_board b \<Longrightarrow>
     wf_board b' \<and> (\<not> ok \<longrightarrow> b' = b)"
  "try_candidates d self vis st b r c cands = Some (ok, st', b') \<Longrightarrow> wf_board b \<Longrightarrow>
     r < board_size b \<Longrightarrow> c < board_size b \<Longrightarrow> is_empty b r c \<Longrightarrow>
     wf_board b' \<and> (\<not> ok \<longrightarrow> b' = b)"
proof (induction d self vis st b and d self vis st b r c cands
    arbitrary: ok st' b' and ok st' b' rule: backtrack_try_candidates.induct)
  case (1 self vis st board)
  then show ?case by simp
next
  case (2 depth self vis st board)
  show ?case
  proof (cases "select_unassigned_variable self board")
    case None
    with "2.prems" show ?thesis by (auto simp: Let_def)
  next
    case (Some p)
    obtain row col where p: "p = (row, col)" by (cases p)
    note sel = select_Some[OF Some[unfolded p]]
    show ?thesis
    proof (cases "card (get_candidates board row col) = 0")
      case True
      with "2.prems" Some p show ?thesis by (auto simp: Let_def)
    next
      case False
      with "2.prems"(1) Some p
      have "try_candidates depth self vis (enter st board) board row col (vis board row col) =
          Some (ok, st', b')"
        by (simp add: Let_def)
      from "2.IH"[OF refl Some[unfolded p] refl False this "2.prems"(2)] sel
      show ?thesis by simp
    qed
  qed
next
  case (3 depth self vis st board row col)
  then show ?case by simp
next
  case (4 depth self vis st board row col num rest)
  let ?b1 = "put board row col num"
  let ?st1 = "record_event st (Trial ?b1)"
  have undone: "put ?b1 row col 0 = board"
    using "4.prems"(5) by (simp add: put_restore is_empty_def)
  have wf1: "wf_board ?b1" using "4.prems"(2) by (rule wf_board_put)
  show ?case
  proof (cases "use_forward_checking self \<and> \<not> is_consistent ?b1")
    case True
    with "4.prems"(1) have "try_candidates depth self vis
        (count_backtrack ?st1 (UndoForward (put ?b1 row col 0))) (put ?b1 row col 0) row col rest =
        Some (ok, st', b')"
      by (simp add: Let_def)
    from "4.IH"(1)[OF refl refl True refl this] "4.prems"(2-5) undone
    show ?thesis by simp
  next
    case False
    show ?thesis
    proof (cases "backtrack depth self vis ?st1 ?b1")
      case None
      with "4.prems"(1) False show ?thesis by (simp add: Let_def)
    next
      case (Some res)
      obtain ok2 st2 b2 where res: "res = (ok2, st2, b2)" by (cases res)
      from "4.IH"(2)[OF refl refl False Some[unfolded res] wf1]
      have b2: "wf_board b2" "\<not> ok2 \<Longrightarrow> b2 = ?b1" by simp_all
      show ?thesis
      proof (cases ok2)
        case True
        with "4.prems"(1) False Some res b2 show ?thesis by (simp add: Let_def)
      next
        case ok2: False
        with "4.prems"(1) False Some res
        have "try_candidates depth self vis
            (count_backtrack st2 (UndoRecursion (put b2 row col 0))) (put b2 row col 0) row col rest =
            Some (ok, st', b')"
          by (simp add: Let_def)
        from "4.IH"(3)[OF refl refl False Some[unfolded res] refl _ refl refl this]
          ok2 b2(2) undone "4.prems"(2-5)
        show ?thesis by simp
      qed
    qed
  qed
qed

text \<open>The loop, with the restored board made explicit.\<close>

lemma try_candidates_Cons:
  assumes wf: "wf_board b" and r: "r < board_size b" and c: "c < board_size b"
    and e: "is_empty b r c"
  shows "try_candidates d self vis st b r c (num # rest) =
    (if use_forward_checking self \<and> \<not> is_consistent (put b r c num) then
       try_candidates d self vis
         (count_backtrack (record_event st (Trial (put b r c num))) (UndoForward b)) b r c rest
     else
       (case backtrack d self vis (record_event st (Trial (put b r c num))) (put b r c num) of
          None \<Rightarrow> None
        | Some (ok, st2, b2) \<Rightarrow>
            if ok then Some (True, st2, b2)
            else try_candidates d self vis (count_backtrack st2 (UndoRecursion b)) b r c rest))"
proof -
  let ?b1 = "put b r c num"
  have undone: "put ?b1 r c 0 = b" using e by (simp add: put_restore is_empty_def)
  have wf1: "wf_board ?b1" using wf by (rule wf_board_put)
  show ?thesis
  proof (cases "backtrack d self vis (record_event st (Trial ?b1)) ?b1")
    case None
    then show ?thesis by (simp add: Let_def undone)
  next
    case (Some res)
    obtain ok2 st2 b2 where res: "res = (ok2, st2, b2)" by (cases res)
    from backtrack_restores(1)[OF Some[unfolded res] wf1] have "\<not> ok2 \<Longrightarrow> b2 = ?b1" by simp
    then show ?thesis using Some res undone by (cases ok2) (simp_all add: Let_def)
  qed
qed

subsection \<open>A deeper bound gives the same result\<close>

lemma backtrack_Suc_depth:
  "backtrack d self vis st b = Some res \<Longrightarrow> backtrack (Suc d) self vis st b = Some res"
  "try_candidates d self vis st b r c cands = Some res \<Longrightarrow>
     try_candidates (Suc d) self vis st b r c cands = Some res"
proof (induction d self vis st b and d self vis st b r c cands
    arbitrary: res and res rule: backtrack_try_candidates.induct)
  case (1 self vis st board)
  then show ?case by simp
next
  case (2 depth self vis st board)
  show ?case
  proof (cases "select_unassigned_variable self board")
    case None
    with "2.prems" show ?thesis by (simp add: Let_def)
  next
    case (Some p)
    obtain row col where p: "p = (row, col)" by (cases p)
    show ?thesis
    proof (cases "card (get_candidates board row col) = 0")
      case True
      with "2.prems" Some p show ?thesis by (simp add: Let_def)
    next
      case False
      with "2.prems"(1) Some p
      have "try_candidates depth self vis (enter st board) board row col (vis board row col) =
          Some res"
        by (simp add: Let_def)
      from "2.IH"[OF refl Some[unfolded p] refl False this]
      show ?thesis using Some p False by (simp add: Let_def)
    qed
  qed
next
  case (3 depth self vis st board row col)
  then show ?case by simp
next
  case (4 depth self vis st board row col num rest)
  let ?b1 = "put board row col num"
  let ?st1 = "record_event st (Trial ?b1)"
  show ?case
  proof (cases "use_forward_checking self \<and> \<not> is_consistent ?b1")
    case True
    with "4.prems"(1) have "try_candidates depth self vis
        (count_backtrack ?st1 (UndoForward (put ?b1 row col 0))) (put ?b1 row col 0) row col rest =
        Some res"
      by (simp add: Let_def)
    from "4.IH"(1)[OF refl refl True refl this] True
    show ?thesis by (simp add: Let_def)
  next
    case False
    show ?thesis
    proof (cases "backtrack depth self vis ?st1 ?b1")
      case None
      with "4.prems"(1) False show ?thesis by (simp add: Let_def)
    next
      case (Some res2)
      obtain ok2 st2 b2 where res2: "res2 = (ok2, st2, b2)" by (cases res2)
      from "4.IH"(2)[OF refl refl False Some]
      have deeper: "backtrack (Suc depth) self vis ?st1 ?b1 = Some (ok2, st2, b2)"
        by (simp add: res2)
      show ?thesis
      proof (cases ok2)
        case True
        with "4.prems"(1) False Some res2 have "res = (True, st2, b2)" by (simp add: Let_def)
        with True deeper show ?thesis by (simp add: Let_def False del: backtrack.simps)
      next
        case ok2: False
        with "4.prems"(1) False Some res2
        have "try_candidates depth self vis
            (count_backtrack st2 (UndoRecursion (put b2 row col 0))) (put b2 row col 0) row col rest =
            Some res"
          by (simp add: Let_def)
        from "4.IH"(3)[OF refl refl False Some[unfolded res2] refl _ refl refl this] ok2
        show ?thesis using deeper by (simp add: Let_def False del: backtrack.simps)
      qed
    qed
  qed
qed

lemma backtrack_deeper:
  assumes "backtrack d self vis st b = Some res" "d \<le> d'"
  shows "backtrack d' self vis st b = Some res"
proof -
  have "backtrack (d + k) self vis st b = Some res" for k
    by (induction k) (simp_all add: assms(1) backtrack_Suc_depth(1) del: backtrack.simps)
  from this[of "d' - d"] assms(2) show ?thesis by simp
qed

subsection \<open>The search returns\<close>

lemma try_candidates_total:
  assumes IH: "\<And>st b'. wf_board b' \<Longrightarrow> count_empty b' < d \<Longrightarrow>
      \<exists>res. backtrack d self vis st b' = Some res"
    and wf: "wf_board b" and r: "r < board_size b" and c: "c < board_size b"
    and e: "is_empty b r c" and d: "count_empty b \<le> d" and nz: "0 \<notin> set cands"
  shows "\<exists>res. try_candidates d self vis st b r c cands = Some res"
  using nz
proof (induction cands arbitrary: st)
  case Nil
  show ?case by (intro exI) (rule try_candidates.simps(1))
next
  case (Cons num rest)
  let ?b1 = "put b r c num"
  let ?st1 = "record_event st (Trial ?b1)"
  from Cons.prems have num: "num \<noteq> 0" and rest: "0 \<notin> set rest" by auto
  have "count_empty ?b1 < d" using count_empty_put[OF wf r c e num] d by simp
  from IH[OF wf_board_put[OF wf] this, of ?st1]
  obtain res where res: "backtrack d self vis ?st1 ?b1 = Some res" by blast
  obtain ok st2 b2 where res': "res = (ok, st2, b2)" by (cases res)
  show ?case
    unfolding try_candidates_Cons[OF wf r c e]
    using Cons.IH[OF rest] res res' by (cases ok) auto
qed

lemma backtrack_total:
  assumes nz: "\<And>b r c. 0 \<notin> set (vis b r c)"
  shows "wf_board b \<Longrightarrow> count_empty b < d \<Longrightarrow> \<exists>res. backtrack d self vis st b = Some res"
proof (induction d arbitrary: st b)
  case 0
  then show ?case by simp
next
  case (Suc d)
  show ?case
  proof (cases "select_unassigned_variable self b")
    case None
    then show ?thesis by (simp add: Let_def)
  next
    case (Some p)
    obtain r c where p: "p = (r, c)" by (cases p)
    note sel = select_Some[OF Some[unfolded p]]
    have "\<exists>res. try_candidates d self vis (enter st b) b r c (vis b r c) = Some res"
      using Suc.IH Suc.prems sel nz
      by (intro try_candidates_total) simp_all
    then show ?thesis using Some p by (auto simp: Let_def)
  qed
qed

lemma enumerates_nonzero: "enumerates vis \<Longrightarrow> 0 \<notin> set (vis b r c)"
  using get_candidates_nonzero[of 0 b r c] by (auto simp: enumerates_def)

lemma copy_wf: "wf_board b \<Longrightarrow> copy b = b"
  by (simp add: copy_def init_def wf_board_def)

subsection \<open>Counters and history\<close>

lemma tally_Nil [simp]: "tally st [] = st"
  by (simp add: tally_def count_events_def)





lemma count_events_simps [simp]:
  "count_events P [] = 0"
  "count_events P (e # evs) = (if P e then 1 else 0) + count_events P evs"
  "count_events P (xs @ ys) = count_events P xs + count_events P ys"
  by (simp_all add: count_events_def)


subsection \<open>What \<open>is_valid_solution\<close> checks\<close>

lemma is_complete_iff:
  "is_complete b \<longleftrightarrow> (\<forall>r<board_size b. \<forall>c<board_size b. cell b r c \<noteq> 0)"
  by (auto simp: is_complete_def list_all_iff)

lemma range_step_square: "0 < n \<Longrightarrow> range_step (n * n) n = map (\<lambda>k. k * n) [0..<n]"
proof -
  assume n: "0 < n"
  have "n * n + n - 1 = (n - 1) + n * n" using n by linarith
  then have "(n * n + n - 1) div n = (n - 1 + n * n) div n" by simp
  also have "\<dots> = n" using n by (simp only: div_mult_self2) simp
  finally show ?thesis by (simp add: range_step_def)
qed

lemma is_valid_solutionD:
  assumes "is_valid_solution b"
  shows "is_complete b"
    "i < board_size b \<Longrightarrow> card (set (board_grid b ! i)) = board_size b"
    "i < board_size b \<Longrightarrow> card (set (column_values b i)) = board_size b"
    "br \<in> set (range_step (board_size b) (board_n b)) \<Longrightarrow>
     bc \<in> set (range_step (board_size b) (board_n b)) \<Longrightarrow>
     card (set (box_values b br bc)) = board_size b"
proof -
  from assms show c: "is_complete b" by (auto simp: is_valid_solution_def split: if_splits)
  from assms c have rc: "\<not> list_ex (\<lambda>i. card (set (board_grid b ! i)) \<noteq> board_size b \<or>
                           card (set (column_values b i)) \<noteq> board_size b) [0..<board_size b]"
    by (auto simp: is_valid_solution_def split: if_splits)
  then show "i < board_size b \<Longrightarrow> card (set (board_grid b ! i)) = board_size b"
    and "i < board_size b \<Longrightarrow> card (set (column_values b i)) = board_size b"
    by (auto simp: list_ex_iff)
  from assms c rc have "\<not> list_ex (\<lambda>box_r. list_ex (\<lambda>box_c.
      card (set (box_values b box_r box_c)) \<noteq> board_size b)
        (range_step (board_size b) (board_n b))) (range_step (board_size b) (board_n b))"
    unfolding is_valid_solution_def by (simp split: if_splits)
  then show "br \<in> set (range_step (board_size b) (board_n b)) \<Longrightarrow>
     bc \<in> set (range_step (board_size b) (board_n b)) \<Longrightarrow>
     card (set (box_values b br bc)) = board_size b"
    by (auto simp: list_ex_iff)
qed

lemma length_box_values: "length (box_values b br bc) = board_n b * board_n b"
  by (simp add: box_values_def)

lemma valid_solution_distinct:
  assumes wf: "wf_board s" and valid: "is_valid_solution s"
    and lt: "r < board_size s" "c < board_size s" "r' < board_size s" "c' < board_size s"
    and ne: "(r, c) \<noteq> (r', c')" and rel: "related (board_n s) (r, c) (r', c')"
  shows "cell s r c \<noteq> cell s r' c'"
proof -
  let ?n = "board_n s" and ?s = "board_size s"
  note n = wf_boardD(1)[OF wf] and s = wf_boardD(2)[OF wf]
  from rel consider (row) "r = r'" | (col) "c = c'"
    | (box) "r div ?n = r' div ?n" "c div ?n = c' div ?n"
    by (auto simp: related_def)
  then show ?thesis
  proof cases
    case row
    have len: "length (board_grid s ! r) = ?s" using wf lt(1) by (rule wf_boardD(4))
    have "distinct (board_grid s ! r)"
      using is_valid_solutionD(2)[OF valid lt(1)] len by (simp add: card_distinct)
    then have "board_grid s ! r ! c \<noteq> board_grid s ! r ! c'"
      using lt len ne row by (simp add: nth_eq_iff_index_eq)
    then show ?thesis using row by (simp add: cell_def)
  next
    case col
    have len: "length (column_values s c) = ?s" by (simp add: column_values_def)
    have "distinct (column_values s c)"
      using is_valid_solutionD(3)[OF valid lt(2)] len by (simp add: card_distinct)
    then have "column_values s c ! r \<noteq> column_values s c ! r'"
      using lt len ne col by (simp add: nth_eq_iff_index_eq)
    then show ?thesis using col lt by (simp add: column_values_def)
  next
    case box
    let ?br = "(r div ?n) * ?n" and ?bc = "(c div ?n) * ?n"
    let ?ps = "List.product [?br..<?br + ?n] [?bc..<?bc + ?n]"
    have "r div ?n < ?n" "c div ?n < ?n"
      using lt(1,2) n s by (simp_all add: less_mult_imp_div_less)
    then have "?br \<in> set (range_step ?s ?n)" "?bc \<in> set (range_step ?s ?n)"
      unfolding s range_step_square[OF n] by simp_all
    from is_valid_solutionD(4)[OF valid this]
    have "distinct (box_values s ?br ?bc)"
      using length_box_values[of s ?br ?bc] s by (simp add: card_distinct)
    then have inj: "inj_on (\<lambda>(r, c). cell s r c) (set ?ps)"
      unfolding box_values_def by (simp add: distinct_map)
    have "?br \<le> r \<and> r < ?br + ?n" "?bc \<le> c \<and> c < ?bc + ?n"
      "?br \<le> r' \<and> r' < ?br + ?n" "?bc \<le> c' \<and> c' < ?bc + ?n"
      using in_box_iff[OF n, of r r] in_box_iff[OF n, of c c]
        in_box_iff[OF n, of r r'] in_box_iff[OF n, of c c'] box
      by simp_all
    then have mem: "(r, c) \<in> set ?ps" "(r', c') \<in> set ?ps"
      by simp_all
    have "(\<lambda>(r, c). cell s r c) (r, c) \<noteq> (\<lambda>(r, c). cell s r c) (r', c')"
      using inj_onD[OF inj _ mem] ne by blast
    then show ?thesis by simp
  qed
qed

subsection \<open>Completions of a board\<close>

lemma fillsD:
  assumes "fills b s"
  shows "board_n s = board_n b" "board_size s = board_size b"
    "r < board_size b \<Longrightarrow> c < board_size b \<Longrightarrow> cell b r c \<noteq> 0 \<Longrightarrow> cell s r c = cell b r c"
    "r < board_size b \<Longrightarrow> c < board_size b \<Longrightarrow> cell b r c = 0 \<Longrightarrow>
       1 \<le> cell s r c \<and> cell s r c \<le> int (board_size b)"
  using assms set_scan_order[of r c b] unfolding fills_def list_all_iff by auto

lemma fillsI:
  assumes "board_n s = board_n b" "board_size s = board_size b"
    "\<And>r c. r < board_size b \<Longrightarrow> c < board_size b \<Longrightarrow> cell b r c \<noteq> 0 \<Longrightarrow>
       cell s r c = cell b r c"
    "\<And>r c. r < board_size b \<Longrightarrow> c < board_size b \<Longrightarrow> cell b r c = 0 \<Longrightarrow>
       1 \<le> cell s r c \<and> cell s r c \<le> int (board_size b)"
  shows "fills b s"
  using assms unfolding fills_def list_all_iff by (auto simp: set_scan_order)

lemma fills_complete:
  assumes "\<And>r c. r < board_size b \<Longrightarrow> c < board_size b \<Longrightarrow> \<not> is_empty b r c"
  shows "fills b b"
  using assms by (intro fillsI) (auto simp: is_empty_def)

lemma fills_put:
  assumes wf: "wf_board b" and r: "r < board_size b" and c: "c < board_size b"
    and e: "is_empty b r c" and v: "1 \<le> v" "v \<le> int (board_size b)"
    and f: "fills (put b r c v) s"
  shows "fills b s"
proof (rule fillsI)
  show "board_n s = board_n b" "board_size s = board_size b"
    using fillsD(1,2)[OF f] by simp_all
next
  fix r' c' assume lt: "r' < board_size b" "c' < board_size b" and nz: "cell b r' c' \<noteq> 0"
  with e have "(r', c') \<noteq> (r, c)" by (auto simp: is_empty_def)
  then have "cell (put b r c v) r' c' = cell b r' c'" by (auto simp: cell_put[OF wf r c])
  with fillsD(3)[OF f, of r' c'] lt nz show "cell s r' c' = cell b r' c'" by simp
next
  fix r' c' assume lt: "r' < board_size b" "c' < board_size b" and z: "cell b r' c' = 0"
  show "1 \<le> cell s r' c' \<and> cell s r' c' \<le> int (board_size b)"
  proof (cases "(r', c') = (r, c)")
    case True
    then have "cell (put b r c v) r' c' = v" by (simp add: cell_put[OF wf r c])
    with fillsD(3)[OF f, of r' c'] lt v show ?thesis by simp
  next
    case False
    then have "cell (put b r c v) r' c' = 0" using z by (auto simp: cell_put[OF wf r c])
    with fillsD(4)[OF f, of r' c'] lt show ?thesis by simp
  qed
qed

lemma fills_put_solution:
  assumes wf: "wf_board b" and r: "r < board_size b" and c: "c < board_size b"
    and f: "fills b s"
  shows "fills (put b r c (cell s r c)) s"
proof -
  have nz: "cell s r c \<noteq> 0"
    using fillsD(3)[OF f r c] fillsD(4)[OF f r c] by (cases "cell b r c = 0") auto
  show ?thesis
  proof (rule fillsI)
  show "board_n s = board_n (put b r c (cell s r c))"
    "board_size s = board_size (put b r c (cell s r c))"
    using fillsD(1,2)[OF f] by simp_all
next
  fix r' c'
  assume "r' < board_size (put b r c (cell s r c))" "c' < board_size (put b r c (cell s r c))"
    "cell (put b r c (cell s r c)) r' c' \<noteq> 0"
  then show "cell s r' c' = cell (put b r c (cell s r c)) r' c'"
    using fillsD(3)[OF f, of r' c'] by (auto simp: cell_put[OF wf r c] split: if_splits)
next
  fix r' c'
  assume "r' < board_size (put b r c (cell s r c))" "c' < board_size (put b r c (cell s r c))"
    "cell (put b r c (cell s r c)) r' c' = 0"
  then show "1 \<le> cell s r' c' \<and> cell s r' c' \<le> int (board_size (put b r c (cell s r c)))"
    using fillsD(4)[OF f, of r' c'] nz by (auto simp: cell_put[OF wf r c] split: if_splits)
  qed
qed

subsection \<open>Soundness\<close>

lemma try_candidates_sound:
  assumes IH: "\<And>st b1 st' b'. wf_board b1 \<Longrightarrow>
      backtrack d self vis st b1 = Some (True, st', b') \<Longrightarrow> is_valid_solution b' \<and> fills b1 b'"
    and wf: "wf_board b" and r: "r < board_size b" and c: "c < board_size b"
    and e: "is_empty b r c" and sub: "set cands \<subseteq> get_candidates b r c"
    and res: "try_candidates d self vis st b r c cands = Some (True, st', b')"
  shows "is_valid_solution b' \<and> fills b b'"
  using sub res
proof (induction cands arbitrary: st)
  case Nil
  then show ?case by simp
next
  case (Cons num rest)
  let ?b1 = "put b r c num"
  let ?st1 = "record_event st (Trial ?b1)"
  from Cons.prems(1) have num: "num \<in> get_candidates b r c"
    and rest: "set rest \<subseteq> get_candidates b r c" by auto
  from num have rng: "1 \<le> num" "num \<le> int (board_size b)"
    unfolding get_candidates_iff[OF wf r c] by simp_all
  show ?case
  proof (cases "use_forward_checking self \<and> \<not> is_consistent ?b1")
    case True
    with Cons.prems(2) show ?thesis
      unfolding try_candidates_Cons[OF wf r c e] using Cons.IH[OF rest] by simp
  next
    case False
    show ?thesis
    proof (cases "backtrack d self vis ?st1 ?b1")
      case None
      with Cons.prems(2) False show ?thesis
        unfolding try_candidates_Cons[OF wf r c e] by simp
    next
      case (Some res2)
      obtain ok2 st2 b2 where res2: "res2 = (ok2, st2, b2)" by (cases res2)
      show ?thesis
      proof (cases ok2)
        case True
        with Cons.prems(2) False Some res2 have "b' = b2"
          unfolding try_candidates_Cons[OF wf r c e] by simp
        moreover from Some res2 True
        have "backtrack d self vis ?st1 ?b1 = Some (True, st2, b2)" by simp
        from IH[OF wf_board_put[OF wf, of r c num] this]
        have "is_valid_solution b2" "fills ?b1 b2" by simp_all
        ultimately show ?thesis using fills_put[OF wf r c e rng] by simp
      next
        case ok2: False
        with Cons.prems(2) False Some res2 show ?thesis
          unfolding try_candidates_Cons[OF wf r c e] using Cons.IH[OF rest] by simp
      qed
    qed
  qed
qed

lemma enumerates_subset: "enumerates vis \<Longrightarrow> set (vis b r c) \<subseteq> get_candidates b r c"
  by (simp add: enumerates_def)

lemma backtrack_sound:
  assumes vis: "enumerates vis"
  shows "wf_board b \<Longrightarrow> backtrack d self vis st b = Some (True, st', b') \<Longrightarrow>
    is_valid_solution b' \<and> fills b b'"
proof (induction d arbitrary: st b st' b')
  case 0
  then show ?case by simp
next
  case (Suc d)
  show ?case
  proof (cases "select_unassigned_variable self b")
    case None
    with Suc.prems(2) have "b' = b" "is_valid_solution b" by (auto simp: Let_def)
    moreover have "fills b b" using select_None[OF None] by (rule fills_complete)
    ultimately show ?thesis by simp
  next
    case (Some p)
    obtain r c where p: "p = (r, c)" by (cases p)
    note sel = select_Some[OF Some[unfolded p]]
    from Suc.prems(2) Some p
    have res: "try_candidates d self vis (enter st b) b r c (vis b r c) = Some (True, st', b')"
      by (simp add: Let_def split: if_splits)
    show ?thesis
    proof (rule try_candidates_sound[OF _ Suc.prems(1) _ _ _ enumerates_subset[OF vis] res])
      show "r < board_size b" "c < board_size b" "is_empty b r c" using sel by simp_all
    next
      fix st1 b1 st2 b2
      assume "wf_board b1" "backtrack d self vis st1 b1 = Some (True, st2, b2)"
      then show "is_valid_solution b2 \<and> fills b1 b2" by (rule Suc.IH)
    qed
  qed
qed

lemma count_list_distinct: "distinct xs \<Longrightarrow> v \<in> set xs \<Longrightarrow> count_list xs v = 1"
  by (induction xs) (auto simp: count_list_0_iff)

lemma exactly_onceI:
  assumes d: "distinct xs" and len: "length xs = side"
    and rng: "\<And>x. x \<in> set xs \<Longrightarrow> 1 \<le> x \<and> x \<le> int side"
  shows "exactly_once side xs"
proof -
  let ?T = "int ` {1..<side + 1}"
  have sub: "set xs \<subseteq> ?T"
  proof
    fix x assume "x \<in> set xs"
    from rng[OF this] have "x = int (nat x)" "1 \<le> nat x" "nat x < side + 1" by auto
    then show "x \<in> ?T" by (metis atLeastLessThan_iff image_eqI)
  qed
  have "card ?T = side" by (simp add: card_image)
  moreover have "card (set xs) = side" using d len by (simp add: distinct_card)
  ultimately have "set xs = ?T" using sub by (intro card_subset_eq) simp_all
  then have "\<And>v. v \<in> ?T \<Longrightarrow> count_list xs v = 1" using d by (simp add: count_list_distinct)
  then show ?thesis unfolding exactly_once_def list_all_iff by (simp del: upt_Suc)
qed

lemma in_rangeD:
  "in_range b \<Longrightarrow> r < board_size b \<Longrightarrow> c < board_size b \<Longrightarrow>
   0 \<le> cell b r c \<and> cell b r c \<le> int (board_size b)"
  using set_scan_order[of r c b] unfolding in_range_def list_all_iff by auto

lemma valid_units_complete:
  assumes wf: "wf_board s" and valid: "is_valid_solution s"
    and rng: "\<And>r c. r < board_size s \<Longrightarrow> c < board_size s \<Longrightarrow>
      1 \<le> cell s r c \<and> cell s r c \<le> int (board_size s)"
  shows "units_complete s"
proof -
  let ?n = "board_n s" and ?s = "board_size s"
  note n = wf_boardD(1)[OF wf] and s = wf_boardD(2)[OF wf]
  have row: "exactly_once ?s (board_grid s ! i)" if i: "i < ?s" for i
  proof (rule exactly_onceI)
    have len: "length (board_grid s ! i) = ?s" using wf i by (rule wf_boardD(4))
    then show "length (board_grid s ! i) = ?s" .
    show "distinct (board_grid s ! i)"
      using is_valid_solutionD(2)[OF valid i] len by (simp add: card_distinct)
    fix x assume "x \<in> set (board_grid s ! i)"
    then show "1 \<le> x \<and> x \<le> int ?s" unfolding set_row[OF wf i] using rng i by auto
  qed
  have col: "exactly_once ?s (column_values s i)" if i: "i < ?s" for i
  proof (rule exactly_onceI)
    show len: "length (column_values s i) = ?s" by (simp add: column_values_def)
    show "distinct (column_values s i)"
      using is_valid_solutionD(3)[OF valid i] len by (simp add: card_distinct)
    fix x assume "x \<in> set (column_values s i)"
    then show "1 \<le> x \<and> x \<le> int ?s" unfolding set_column using rng i by auto
  qed
  have box: "exactly_once ?s (box_values s br bc)"
    if br: "br \<in> set (range_step ?s ?n)" and bc: "bc \<in> set (range_step ?s ?n)" for br bc
  proof (rule exactly_onceI)
    show len: "length (box_values s br bc) = ?s" using s by (simp add: length_box_values)
    show "distinct (box_values s br bc)"
      using is_valid_solutionD(4)[OF valid br bc] len by (simp add: card_distinct)
    fix x assume "x \<in> set (box_values s br bc)"
    then obtain r c where rc: "br \<le> r" "r < br + ?n" "bc \<le> c" "c < bc + ?n" "x = cell s r c"
      unfolding set_box by auto
    from br bc obtain k l where kl: "k < ?n" "br = k * ?n" "l < ?n" "bc = l * ?n"
      unfolding s range_step_square[OF n] by auto
    have "r < Suc k * ?n" "c < Suc l * ?n" using rc kl by simp_all
    moreover have "Suc k * ?n \<le> ?n * ?n" "Suc l * ?n \<le> ?n * ?n"
      using kl by (simp_all only: mult_le_mono1 Suc_leI)
    ultimately have "r < ?s" "c < ?s" using s by simp_all
    with rng rc(5) show "1 \<le> x \<and> x \<le> int ?s" by simp
  qed
  show ?thesis
    unfolding units_complete_def list_all_iff using row col box by simp
qed

text \<open>
  Soundness on the boards of the data model.  When \<open>solve\<close> reports success on a
  well-formed board, the board it returns satisfies \<open>is_valid_solution\<close> and fills the
  input: it keeps the given cells and holds a value of \<open>1..side\<close> in every cell that was
  empty.  When every cell of the input lies in \<open>[0, side]\<close>, as the data model of the board
  asks, the returned board is complete and every row, column and box contains each value
  of \<open>1..side\<close> exactly once.
\<close>

theorem solve_sound:
  assumes wf: "wf_board b" and vis: "enumerates vis"
    and res: "solve d self vis b = Some ((True, sol), st)"
  shows "\<exists>s. sol = Some s \<and> is_valid_solution s \<and> fills b s \<and>
    (in_range b \<longrightarrow> is_complete s \<and> units_complete s)"
proof -
  from res obtain s where s: "sol = Some s" "backtrack d self vis initial_stats b = Some (True, st, s)"
    by (auto simp: solve_def copy_wf[OF wf] Let_def split: option.splits if_splits)
  from backtrack_sound[OF vis wf s(2)] have valid: "is_valid_solution s" and f: "fills b s"
    by simp_all
  from backtrack_restores(1)[OF s(2) wf] have wfs: "wf_board s" by simp
  have "is_complete s \<and> units_complete s" if rng: "in_range b"
  proof
    show c: "is_complete s" using valid by (rule is_valid_solutionD(1))
    have "1 \<le> cell s r c \<and> cell s r c \<le> int (board_size s)"
      if lt: "r < board_size s" "c < board_size s" for r c
    proof (cases "cell b r c = 0")
      case True
      with fillsD(4)[OF f, of r c] fillsD(2)[OF f] lt show ?thesis by simp
    next
      case False
      with fillsD(3)[OF f, of r c] fillsD(2)[OF f] lt in_rangeD[OF rng, of r c]
      show ?thesis by simp
    qed
    with wfs valid show "units_complete s" by (rule valid_units_complete)
  qed
  with s(1) valid f show ?thesis by simp
qed

theorem solve_sound_witness:
  "wf_board puzzle4 \<and> enumerates ascending \<and> in_range puzzle4 \<and>
   (\<exists>st. solve 11 both_on ascending puzzle4 = Some ((True, Some example4), st)) \<and>
   is_valid_solution example4 \<and> fills puzzle4 example4 \<and> is_complete example4 \<and>
   units_complete example4"
proof -
  have wf: "wf_board puzzle4" by code_simp
  have vis: "enumerates ascending" by (simp add: enumerates_def ascending_def)
  have rng: "in_range puzzle4" by code_simp
  have "map_option fst (solve 11 both_on ascending puzzle4) = Some (True, Some example4)"
    by code_simp
  then obtain st where res: "solve 11 both_on ascending puzzle4 = Some ((True, Some example4), st)"
    by auto
  from solve_sound[OF wf vis res] rng wf vis res show ?thesis by auto
qed

text \<open>
  C1.  Whenever \<open>solve\<close> reports success, the board it returns should be complete with
  every row, column and box containing each value of \<open>1..side\<close> exactly once.  The code
  breaks this on a board with values outside \<open>[0, side]\<close>: \<open>from_list\<close> accepts the grid
  below although its values are 5 to 8 on a board of side 4, \<open>is_valid_solution\<close> only
  counts the distinct values of each unit and never looks at the values, and so \<open>solve\<close>
  reports success and returns a board none of whose units contains the values 1 to 4.
\<close>

theorem solve_success_outside_range:
  "from_list (init 2) [[5, 6, 7, 8], [7, 8, 5, 6], [6, 5, 8, 7], [8, 7, 6, 5]] =
     Inr off_range4 \<and>
   solve 1 both_on ascending off_range4 =
     Some ((True, Some off_range4),
       \<lparr>nodes_explored = 1, backtrack_count = 0, history = [Node off_range4]\<rparr>) \<and>
   is_valid_solution off_range4 \<and> \<not> units_complete off_range4"
  by code_simp

theorem solve_success_outside_range_witness:
  "\<exists>b st. from_list (init 2) [[5, 6, 7, 8], [7, 8, 5, 6], [6, 5, 8, 7], [8, 7, 6, 5]] = Inr b \<and>
     solve 1 both_on ascending b = Some ((True, Some b), st) \<and>
     is_valid_solution b \<and> \<not> units_complete b \<and> \<not> in_range b"
proof -
  have "\<not> in_range off_range4" by code_simp
  with solve_success_outside_range show ?thesis by blast
qed




subsection \<open>Every board of the search is consistent\<close>

lemma history_simps [simp]:
  "history (enter st b) = history st @ [Node b]"
  "history (record_event st e) = history st @ [e]"
  "history (count_backtrack st e) = history st @ [e]"
  by (simp_all add: enter_def record_event_def count_backtrack_def)

lemma boards_of_simps [simp]:
  "boards_of [] = []"
  "boards_of (e # evs) = event_boards e @ boards_of evs"
  "boards_of (xs @ ys) = boards_of xs @ boards_of ys"
  by (simp_all add: boards_of_def)

lemma try_candidates_consistent:
  assumes IH: "\<And>st b1 ok st' b'. wf_board b1 \<Longrightarrow> consistent b1 \<Longrightarrow>
      backtrack d self vis st b1 = Some (ok, st', b') \<Longrightarrow>
      \<exists>evs. history st' = history st @ evs \<and> (\<forall>x\<in>set (boards_of evs). consistent x) \<and>
        consistent b'"
    and wf: "wf_board b" and r: "r < board_size b" and c: "c < board_size b"
    and e: "is_empty b r c" and cons: "consistent b"
    and sub: "set cands \<subseteq> get_candidates b r c"
    and res: "try_candidates d self vis st b r c cands = Some (ok, st', b')"
  shows "\<exists>evs. history st' = history st @ evs \<and> (\<forall>x\<in>set (boards_of evs). consistent x) \<and>
    consistent b'"
  using sub res
proof (induction cands arbitrary: st)
  case Nil
  then have "history st' = history st @ []" "b' = b" by simp_all
  with cons show ?case by (intro exI[of _ "[]"]) simp
next
  case (Cons num rest)
  let ?b1 = "put b r c num"
  let ?st1 = "record_event st (Trial ?b1)"
  from Cons.prems(1) have num: "num \<in> get_candidates b r c"
    and rest: "set rest \<subseteq> get_candidates b r c" by auto
  have cons1: "consistent ?b1" using wf r c num cons by (rule consistent_put)
  have wf1: "wf_board ?b1" using wf by (rule wf_board_put)
  show ?case
  proof (cases "use_forward_checking self \<and> \<not> is_consistent ?b1")
    case True
    with Cons.prems(2) have
      "try_candidates d self vis (count_backtrack ?st1 (UndoForward b)) b r c rest =
        Some (ok, st', b')"
      unfolding try_candidates_Cons[OF wf r c e] by simp
    from Cons.IH[OF rest this] obtain evs where
      evs: "history st' = history (count_backtrack ?st1 (UndoForward b)) @ evs"
        "\<forall>x\<in>set (boards_of evs). consistent x" "consistent b'"
      by blast
    show ?thesis
      using evs cons cons1 by (intro exI[of _ "Trial ?b1 # UndoForward b # evs"]) simp
  next
    case False
    show ?thesis
    proof (cases "backtrack d self vis ?st1 ?b1")
      case None
      with Cons.prems(2) False show ?thesis
        unfolding try_candidates_Cons[OF wf r c e] by simp
    next
      case (Some res2)
      obtain ok2 st2 b2 where res2: "res2 = (ok2, st2, b2)" by (cases res2)
      from IH[OF wf1 cons1 Some[unfolded res2]] obtain evs2 where
        evs2: "history st2 = history ?st1 @ evs2"
          "\<forall>x\<in>set (boards_of evs2). consistent x" "consistent b2"
        by blast
      show ?thesis
      proof (cases ok2)
        case True
        with Cons.prems(2) False Some res2 have "st' = st2" "b' = b2"
          unfolding try_candidates_Cons[OF wf r c e] by simp_all
        with evs2 cons1 show ?thesis
          by (intro exI[of _ "Trial ?b1 # evs2"]) simp
      next
        case ok2: False
        with Cons.prems(2) False Some res2 have
          "try_candidates d self vis (count_backtrack st2 (UndoRecursion b)) b r c rest =
            Some (ok, st', b')"
          unfolding try_candidates_Cons[OF wf r c e] by simp
        from Cons.IH[OF rest this] obtain evs where
          evs: "history st' = history (count_backtrack st2 (UndoRecursion b)) @ evs"
            "\<forall>x\<in>set (boards_of evs). consistent x" "consistent b'"
          by blast
        show ?thesis
          using evs evs2 cons cons1
          by (intro exI[of _ "Trial ?b1 # evs2 @ UndoRecursion b # evs"]) auto
      qed
    qed
  qed
qed

lemma backtrack_consistent:
  assumes vis: "enumerates vis"
  shows "wf_board b \<Longrightarrow> consistent b \<Longrightarrow> backtrack d self vis st b = Some (ok, st', b') \<Longrightarrow>
    \<exists>evs. history st' = history st @ evs \<and> (\<forall>x\<in>set (boards_of evs). consistent x) \<and>
      consistent b'"
proof (induction d arbitrary: st b ok st' b')
  case 0
  then show ?case by simp
next
  case (Suc d)
  show ?case
  proof (cases "select_unassigned_variable self b")
    case None
    with Suc.prems(3) have "history st' = history st @ [Node b]" "b' = b"
      by (auto simp: Let_def)
    with Suc.prems(2) show ?thesis by (intro exI[of _ "[Node b]"]) simp
  next
    case (Some p)
    obtain r c where p: "p = (r, c)" by (cases p)
    note sel = select_Some[OF Some[unfolded p]]
    show ?thesis
    proof (cases "card (get_candidates b r c) = 0")
      case True
      with Suc.prems(3) Some p have "history st' = history st @ [Node b, DeadEnd r c]" "b' = b"
        by (auto simp: Let_def)
      with Suc.prems(2) show ?thesis by (intro exI[of _ "[Node b, DeadEnd r c]"]) simp
    next
      case False
      with Suc.prems(3) Some p
      have res: "try_candidates d self vis (enter st b) b r c (vis b r c) = Some (ok, st', b')"
        by (simp add: Let_def)
      have "\<exists>evs. history st' = history (enter st b) @ evs \<and>
          (\<forall>x\<in>set (boards_of evs). consistent x) \<and> consistent b'"
      proof (rule try_candidates_consistent[OF _ Suc.prems(1) _ _ _ Suc.prems(2)
            enumerates_subset[OF vis] res])
        show "r < board_size b" "c < board_size b" "is_empty b r c" using sel by simp_all
      next
        fix st1 b1 ok1 st2 b2
        assume "wf_board b1" "consistent b1" "backtrack d self vis st1 b1 = Some (ok1, st2, b2)"
        then show "\<exists>evs. history st2 = history st1 @ evs \<and>
            (\<forall>x\<in>set (boards_of evs). consistent x) \<and> consistent b2"
          by (rule Suc.IH)
      qed
      then obtain evs where evs: "history st' = history (enter st b) @ evs"
        "\<forall>x\<in>set (boards_of evs). consistent x" "consistent b'" by blast
      with Suc.prems(2) show ?thesis by (intro exI[of _ "Node b # evs"]) simp
    qed
  qed
qed

lemma solve_returns:
  assumes wf: "wf_board b" and vis: "enumerates vis" and d: "count_empty b < d"
  shows "\<exists>ok st b'. backtrack d self vis initial_stats b = Some (ok, st, b') \<and>
     solve d self vis b = Some ((ok, if ok then Some b' else None), st)"
proof -
  have "\<exists>res. backtrack d self vis initial_stats b = Some res"
    using wf d by (rule backtrack_total[where vis = vis, OF enumerates_nonzero[OF vis]])
  then obtain res where res: "backtrack d self vis initial_stats b = Some res" by blast
  obtain ok st b' where "res = (ok, st, b')" by (cases res)
  with res show ?thesis by (auto simp: solve_def copy_wf[OF wf])
qed

text \<open>
  C2.  When the input board is well formed and consistent, \<open>solve\<close> returns, and every
  board the search goes through is consistent: the board of every call (the snapshot the
  step callback receives), the board after every trial assignment and after every undo,
  and the board returned.  A trial value comes from the candidate set of its cell, which
  holds no value of a related cell.
\<close>

theorem search_keeps_consistency:
  assumes wf: "wf_board b" and cons: "consistent b" and vis: "enumerates vis"
    and d: "count_empty b < d"
  shows "\<exists>res st. solve d self vis b = Some (res, st) \<and>
    (\<forall>x\<in>set (boards_of (history st)). consistent x) \<and>
    (\<forall>x. Node x \<in> set (history st) \<longrightarrow> consistent x) \<and>
    (\<forall>s. snd res = Some s \<longrightarrow> consistent s)"
proof -
  from solve_returns[OF wf vis d, of self] obtain ok st b' where
    bt: "backtrack d self vis initial_stats b = Some (ok, st, b')"
    and res: "solve d self vis b = Some ((ok, if ok then Some b' else None), st)"
    by blast
  from backtrack_consistent[OF vis wf cons bt] obtain evs where
    evs: "history st = history initial_stats @ evs" "\<forall>x\<in>set (boards_of evs). consistent x"
      "consistent b'" by blast
  from evs(1) have h: "history st = evs" by (simp add: initial_stats_def)
  have "consistent x" if "Node x \<in> set (history st)" for x
  proof -
    from that have "x \<in> set (boards_of (history st))"
      unfolding boards_of_def by (auto intro!: bexI[of _ "Node x"])
    with evs(2) h show ?thesis by simp
  qed
  with res evs(2,3) h show ?thesis by auto
qed

theorem search_keeps_consistency_witness:
  "wf_board puzzle4 \<and> consistent puzzle4 \<and> enumerates ascending \<and> count_empty puzzle4 < 11 \<and>
   (\<exists>st. solve 11 both_on ascending puzzle4 = Some ((True, Some example4), st) \<and>
      list_all consistent (boards_of (history st)) \<and> length (boards_of (history st)) = 21) \<and>
   consistent example4"
proof -
  have wf: "wf_board puzzle4" by code_simp
  have cons: "consistent puzzle4" by code_simp
  have vis: "enumerates ascending" by (simp add: enumerates_def ascending_def)
  have d: "count_empty puzzle4 < 11" by code_simp
  have "map_option (\<lambda>(r, st). (r, length (boards_of (history st))))
      (solve 11 both_on ascending puzzle4) = Some ((True, Some example4), 21)"
    by code_simp
  then obtain st where st: "solve 11 both_on ascending puzzle4 = Some ((True, Some example4), st)"
    "length (boards_of (history st)) = 21"
    by auto
  from search_keeps_consistency[OF wf cons vis d, of both_on] st
  have "list_all consistent (boards_of (history st))" "consistent example4"
    by (auto simp: list_all_iff)
  with wf cons vis d st show ?thesis by blast
qed

subsection \<open>A board with a completion is solved\<close>

lemma solution_value_candidate:
  assumes wf: "wf_board b" and wfs: "wf_board s" and valid: "is_valid_solution s"
    and f: "fills b s" and r: "r < board_size b" and c: "c < board_size b"
    and e: "is_empty b r c"
  shows "cell s r c \<in> get_candidates b r c"
  unfolding get_candidates_iff[OF wf r c]
proof (intro conjI allI impI)
  show "is_empty b r c" by (rule e)
  from fillsD(4)[OF f r c] e show "1 \<le> cell s r c" "cell s r c \<le> int (board_size b)"
    by (simp_all add: is_empty_def)
next
  fix r' c'
  assume lt: "r' < board_size b" "c' < board_size b"
    and rel: "related (board_n b) (r, c) (r', c')"
  show "cell b r' c' \<noteq> cell s r c"
  proof (cases "cell b r' c' = 0")
    case True
    with fillsD(4)[OF f r c] e show ?thesis by (simp add: is_empty_def)
  next
    case False
    with e have ne: "(r, c) \<noteq> (r', c')" by (auto simp: is_empty_def)
    have "cell s r c \<noteq> cell s r' c'"
      using valid_solution_distinct[OF wfs valid _ _ _ _ ne] r c lt rel fillsD(1,2)[OF f]
      by simp
    with fillsD(3)[OF f lt False] show ?thesis by simp
  qed
qed

lemma completion_is_consistent:
  assumes wf: "wf_board b" and wfs: "wf_board s" and valid: "is_valid_solution s"
    and f: "fills b s"
  shows "is_consistent b"
proof -
  have "card (get_candidates b r c) \<noteq> 0"
    if "r < board_size b" "c < board_size b" "is_empty b r c" for r c
    using solution_value_candidate[OF wf wfs valid f that] by (auto simp: card_eq_0_iff)
  then show ?thesis
    unfolding is_consistent_def list_ex_iff by (auto simp: set_scan_order)
qed

lemma try_candidates_complete:
  assumes IH: "\<And>st b1 ok st' b'. wf_board b1 \<Longrightarrow> fills b1 s \<Longrightarrow>
      backtrack d self vis st b1 = Some (ok, st', b') \<Longrightarrow> ok"
    and wf: "wf_board b" and r: "r < board_size b" and c: "c < board_size b"
    and e: "is_empty b r c"
    and wfs: "wf_board s" and valid: "is_valid_solution s" and f: "fills b s"
    and mem: "cell s r c \<in> set cands"
    and res: "try_candidates d self vis st b r c cands = Some (ok, st', b')"
  shows ok
  using mem res
proof (induction cands arbitrary: st)
  case Nil
  then show ?case by simp
next
  case (Cons num rest)
  let ?b1 = "put b r c num"
  let ?st1 = "record_event st (Trial ?b1)"
  have wf1: "wf_board ?b1" using wf by (rule wf_board_put)
  show ?case
  proof (cases "num = cell s r c")
    case True
    have f1: "fills ?b1 s" unfolding True using wf r c f by (rule fills_put_solution)
    have "is_consistent ?b1" using wf1 wfs valid f1 by (rule completion_is_consistent)
    then have nofc: "\<not> (use_forward_checking self \<and> \<not> is_consistent ?b1)" by simp
    show ?thesis
    proof (cases "backtrack d self vis ?st1 ?b1")
      case None
      with Cons.prems(2) nofc show ?thesis
        unfolding try_candidates_Cons[OF wf r c e] by simp
    next
      case (Some res2)
      obtain ok2 st2 b2 where res2: "res2 = (ok2, st2, b2)" by (cases res2)
      from IH[OF wf1 f1 Some[unfolded res2]] have ok2 .
      with Cons.prems(2) nofc Some res2 show ?thesis
        unfolding try_candidates_Cons[OF wf r c e] by simp
    qed
  next
    case False
    with Cons.prems(1) have rest: "cell s r c \<in> set rest" by auto
    show ?thesis
    proof (cases "use_forward_checking self \<and> \<not> is_consistent ?b1")
      case True
      with Cons.prems(2) show ?thesis
        unfolding try_candidates_Cons[OF wf r c e] using Cons.IH[OF rest] by simp
    next
      case nofc: False
      show ?thesis
      proof (cases "backtrack d self vis ?st1 ?b1")
        case None
        with Cons.prems(2) nofc show ?thesis
          unfolding try_candidates_Cons[OF wf r c e] by simp
      next
        case (Some res2)
        obtain ok2 st2 b2 where res2: "res2 = (ok2, st2, b2)" by (cases res2)
        show ?thesis
        proof (cases ok2)
          case True
          with Cons.prems(2) nofc Some res2 show ?thesis
            unfolding try_candidates_Cons[OF wf r c e] by simp
        next
          case False
          with Cons.prems(2) nofc Some res2 show ?thesis
            unfolding try_candidates_Cons[OF wf r c e] using Cons.IH[OF rest] by simp
        qed
      qed
    qed
  qed
qed

lemma fills_complete_eq:
  assumes wf: "wf_board b" and wfs: "wf_board s" and f: "fills b s"
    and full: "\<And>r c. r < board_size b \<Longrightarrow> c < board_size b \<Longrightarrow> \<not> is_empty b r c"
  shows "s = b"
proof -
  have cells: "cell s r c = cell b r c" if "r < board_size b" "c < board_size b" for r c
    using fillsD(3)[OF f that] full[OF that] by (simp add: is_empty_def)
  have "board_grid s = board_grid b"
  proof (rule nth_equalityI)
    show "length (board_grid s) = length (board_grid b)"
      using wf_boardD(3)[OF wf] wf_boardD(3)[OF wfs] fillsD(2)[OF f] by simp
  next
    fix i assume "i < length (board_grid s)"
    then have i: "i < board_size b" "i < board_size s"
      using wf_boardD(3)[OF wfs] fillsD(2)[OF f] by simp_all
    show "board_grid s ! i = board_grid b ! i"
    proof (rule nth_equalityI)
      show "length (board_grid s ! i) = length (board_grid b ! i)"
        using wf_boardD(4)[OF wf i(1)] wf_boardD(4)[OF wfs i(2)] fillsD(2)[OF f] by simp
    next
      fix j assume "j < length (board_grid s ! i)"
      then have "j < board_size b" using wf_boardD(4)[OF wfs i(2)] fillsD(2)[OF f] by simp
      from cells[OF i(1) this] show "board_grid s ! i ! j = board_grid b ! i ! j"
        by (simp add: cell_def)
    qed
  qed
  with fillsD(1,2)[OF f] show ?thesis by simp
qed

lemma backtrack_complete:
  assumes vis: "enumerates vis" and wfs: "wf_board s" and valid: "is_valid_solution s"
  shows "wf_board b \<Longrightarrow> fills b s \<Longrightarrow> backtrack d self vis st b = Some (ok, st', b') \<Longrightarrow> ok"
proof (induction d arbitrary: st b ok st' b')
  case 0
  then show ?case by simp
next
  case (Suc d)
  show ?case
  proof (cases "select_unassigned_variable self b")
    case None
    have "s = b" using Suc.prems(1) wfs Suc.prems(2) select_None[OF None]
      by (rule fills_complete_eq)
    with valid Suc.prems(3) None show ?thesis by (auto simp: Let_def)
  next
    case (Some p)
    obtain r c where p: "p = (r, c)" by (cases p)
    note sel = select_Some[OF Some[unfolded p]]
    have cand: "cell s r c \<in> get_candidates b r c"
      using Suc.prems(1) wfs valid Suc.prems(2) sel by (intro solution_value_candidate) simp_all
    then have "card (get_candidates b r c) \<noteq> 0" by (auto simp: card_eq_0_iff)
    with Suc.prems(3) Some p
    have res: "try_candidates d self vis (enter st b) b r c (vis b r c) = Some (ok, st', b')"
      by (simp add: Let_def)
    have mem: "cell s r c \<in> set (vis b r c)" using cand vis by (simp add: enumerates_def)
    show ?thesis
    proof (rule try_candidates_complete[OF _ Suc.prems(1) _ _ _ wfs valid Suc.prems(2) mem res])
      show "r < board_size b" "c < board_size b" "is_empty b r c" using sel by simp_all
    next
      fix st1 b1 ok1 st2 b2
      assume "wf_board b1" "fills b1 s" "backtrack d self vis st1 b1 = Some (ok1, st2, b2)"
      then show ok1 by (rule Suc.IH)
    qed
  qed
qed

text \<open>The outcome of \<open>solve\<close> is decided by the board alone: success means a completion exists.\<close>

lemma solve_success_iff:
  assumes wf: "wf_board b" and vis: "enumerates vis" and d: "count_empty b < d"
  shows "\<exists>ok sol st. solve d self vis b = Some ((ok, sol), st) \<and> (sol = None \<longleftrightarrow> \<not> ok) \<and>
    (ok \<longleftrightarrow> (\<exists>s. wf_board s \<and> is_valid_solution s \<and> fills b s))"
proof -
  from solve_returns[OF wf vis d, of self] obtain ok st b' where
    bt: "backtrack d self vis initial_stats b = Some (ok, st, b')"
    and res: "solve d self vis b = Some ((ok, if ok then Some b' else None), st)"
    by blast
  have "ok \<longleftrightarrow> (\<exists>s. wf_board s \<and> is_valid_solution s \<and> fills b s)"
  proof
    assume ok
    with bt have bt': "backtrack d self vis initial_stats b = Some (True, st, b')" by simp
    from backtrack_sound[OF vis wf bt'] backtrack_restores(1)[OF bt wf]
    have "wf_board b' \<and> is_valid_solution b' \<and> fills b b'" by simp
    then show "\<exists>s. wf_board s \<and> is_valid_solution s \<and> fills b s" ..
  next
    assume "\<exists>s. wf_board s \<and> is_valid_solution s \<and> fills b s"
    then obtain s where "wf_board s" "is_valid_solution s" "fills b s" by blast
    from backtrack_complete[OF vis this(1,2) wf this(3) bt] show ok .
  qed
  with res show ?thesis by auto
qed

subsection \<open>The MRV scan\<close>

lemma candidate_count_le: "candidate_count b p \<le> board_size b"
  by (simp add: candidate_count_def card_get_candidates)

lemma mrv_scan_least:
  "1 \<le> m \<Longrightarrow>
   ((\<forall>q\<in>set (filter (\<lambda>(r, c). is_empty b r c) ps). m \<le> candidate_count b q) \<and>
      mrv_scan b ps m best = best) \<or>
   (\<exists>before p after. filter (\<lambda>(r, c). is_empty b r c) ps = before @ p # after \<and>
      mrv_scan b ps m best = Some p \<and> candidate_count b p < m \<and>
      (\<forall>q\<in>set before. candidate_count b p < candidate_count b q) \<and>
      (\<forall>q\<in>set after. candidate_count b p \<le> candidate_count b q))"
proof (induction b ps m best rule: mrv_scan.induct)
  case (1 board min_candidates best_cell)
  then show ?case by simp
next
  case (2 board r c rest m best)
  let ?E = "\<lambda>(r, c). is_empty board r c"
  let ?k = "card (get_candidates board r c)"
  have k: "candidate_count board (r, c) = ?k" by (simp add: candidate_count_def)
  show ?case
  proof (cases "is_empty board r c")
    case False
    with "2.IH"(3)[OF False "2.prems"] show ?thesis by simp
  next
    case True
    then have es: "filter ?E ((r, c) # rest) = (r, c) # filter ?E rest" by simp
    show ?thesis
    proof (cases "?k = 0")
      case True
      have "filter ?E ((r, c) # rest) = [] @ (r, c) # filter ?E rest" using es by simp
      moreover have "mrv_scan board ((r, c) # rest) m best = Some (r, c)"
        using \<open>is_empty board r c\<close> True by (simp add: Let_def)
      moreover have "candidate_count board (r, c) < m" using True k "2.prems" by simp
      moreover have "\<forall>q\<in>set (filter ?E rest).
          candidate_count board (r, c) \<le> candidate_count board q"
        using True k by simp
      ultimately show ?thesis by (intro disjI2 exI[of _ "[]"] exI[of _ "(r, c)"]
            exI[of _ "filter ?E rest"]) (simp del: filter.simps)
    next
      case nz: False
      show ?thesis
      proof (cases "?k < m")
        case less: True
        have step: "mrv_scan board ((r, c) # rest) m best = mrv_scan board rest ?k (Some (r, c))"
          using \<open>is_empty board r c\<close> nz less by (simp add: Let_def)
        from nz have "1 \<le> ?k" by (simp only: One_nat_def Suc_le_eq neq0_conv)
        from "2.IH"(1)[OF \<open>is_empty board r c\<close> refl nz less this]
        show ?thesis
        proof
          assume a: "(\<forall>q\<in>set (filter ?E rest). ?k \<le> candidate_count board q) \<and>
            mrv_scan board rest ?k (Some (r, c)) = Some (r, c)"
          have "filter ?E ((r, c) # rest) = [] @ (r, c) # filter ?E rest" using es by simp
          moreover have "mrv_scan board ((r, c) # rest) m best = Some (r, c)"
            using step a by simp
          moreover have "candidate_count board (r, c) < m" using less k by simp
          moreover have "\<forall>q\<in>set (filter ?E rest).
              candidate_count board (r, c) \<le> candidate_count board q"
            using a k by simp
          ultimately show ?thesis by (intro disjI2 exI[of _ "[]"] exI[of _ "(r, c)"]
                exI[of _ "filter ?E rest"]) (simp del: filter.simps)
        next
          assume "\<exists>before p after. filter ?E rest = before @ p # after \<and>
            mrv_scan board rest ?k (Some (r, c)) = Some p \<and> candidate_count board p < ?k \<and>
            (\<forall>q\<in>set before. candidate_count board p < candidate_count board q) \<and>
            (\<forall>q\<in>set after. candidate_count board p \<le> candidate_count board q)"
          then obtain before p after where
            b: "filter ?E rest = before @ p # after"
              "mrv_scan board rest ?k (Some (r, c)) = Some p" "candidate_count board p < ?k"
              "\<forall>q\<in>set before. candidate_count board p < candidate_count board q"
              "\<forall>q\<in>set after. candidate_count board p \<le> candidate_count board q"
            by blast
          have "filter ?E ((r, c) # rest) = ((r, c) # before) @ p # after" using es b(1) by simp
          moreover have "mrv_scan board ((r, c) # rest) m best = Some p" using step b(2) by simp
          moreover have "candidate_count board p < m" using b(3) less by simp
          moreover have "\<forall>q\<in>set ((r, c) # before).
              candidate_count board p < candidate_count board q"
            using b(3,4) k by simp
          ultimately show ?thesis using b(5)
            by (intro disjI2 exI[of _ "(r, c) # before"] exI[of _ p] exI[of _ after])
              (simp del: filter.simps)
        qed
      next
        case ge: False
        have step: "mrv_scan board ((r, c) # rest) m best = mrv_scan board rest m best"
          using \<open>is_empty board r c\<close> nz ge by (simp add: Let_def)
        from "2.IH"(2)[OF \<open>is_empty board r c\<close> refl nz ge "2.prems"]
        show ?thesis
        proof
          assume a: "(\<forall>q\<in>set (filter ?E rest). m \<le> candidate_count board q) \<and>
            mrv_scan board rest m best = best"
          then have "\<forall>q\<in>set (filter ?E ((r, c) # rest)). m \<le> candidate_count board q"
            using ge k es by simp
          with a step show ?thesis by (intro disjI1) simp
        next
          assume "\<exists>before p after. filter ?E rest = before @ p # after \<and>
            mrv_scan board rest m best = Some p \<and> candidate_count board p < m \<and>
            (\<forall>q\<in>set before. candidate_count board p < candidate_count board q) \<and>
            (\<forall>q\<in>set after. candidate_count board p \<le> candidate_count board q)"
          then obtain before p after where
            b: "filter ?E rest = before @ p # after"
              "mrv_scan board rest m best = Some p" "candidate_count board p < m"
              "\<forall>q\<in>set before. candidate_count board p < candidate_count board q"
              "\<forall>q\<in>set after. candidate_count board p \<le> candidate_count board q"
            by blast
          have "filter ?E ((r, c) # rest) = ((r, c) # before) @ p # after" using es b(1) by simp
          moreover have "mrv_scan board ((r, c) # rest) m best = Some p" using step b(2) by simp
          moreover have "\<forall>q\<in>set ((r, c) # before).
              candidate_count board p < candidate_count board q"
            using b(3,4) k ge by simp
          ultimately show ?thesis using b(3,5)
            by (intro disjI2 exI[of _ "(r, c) # before"] exI[of _ p] exI[of _ after])
              (simp del: filter.simps)
        qed
      qed
    qed
  qed
qed

text \<open>The scan stops at a cell without candidates: what follows it is not looked at.\<close>

lemma mrv_scan_stops:
  assumes "is_empty b r c" "card (get_candidates b r c) = 0"
    and "\<forall>(r', c')\<in>set xs. is_empty b r' c' \<longrightarrow> card (get_candidates b r' c') \<noteq> 0"
  shows "mrv_scan b (xs @ (r, c) # ys) m best = Some (r, c)"
  using assms(3)
proof (induction xs arbitrary: m best)
  case Nil
  show ?case using assms(1,2) by (simp add: Let_def)
next
  case (Cons x xs)
  obtain r' c' where x: "x = (r', c')" by (cases x)
  from Cons.prems have "\<forall>(r', c')\<in>set xs. is_empty b r' c' \<longrightarrow> card (get_candidates b r' c') \<noteq> 0"
    by simp
  note IH = Cons.IH[OF this]
  from Cons.prems x have "is_empty b r' c' \<longrightarrow> card (get_candidates b r' c') \<noteq> 0" by simp
  then show ?case unfolding x by (simp add: Let_def IH)
qed

text \<open>
  C4.  With MRV enabled and an empty cell on the board, the selected cell is an empty cell
  whose candidate count is the least; every empty cell before it in row-major order has
  a strictly larger count, so ties go to the cell met first.  When some empty cell has no
  candidate, the selected cell has none either: it is the first such cell.
\<close>

theorem mrv_selects_first_least:
  assumes mrv: "use_mrv self" and some: "empty_cells b \<noteq> []"
  shows "\<exists>before p after. empty_cells b = before @ p # after \<and>
    select_unassigned_variable self b = Some p \<and>
    (\<forall>q\<in>set before. candidate_count b p < candidate_count b q) \<and>
    (\<forall>q\<in>set after. candidate_count b p \<le> candidate_count b q) \<and>
    ((\<exists>q\<in>set (empty_cells b). candidate_count b q = 0) \<longrightarrow> candidate_count b p = 0)"
proof -
  let ?m = "board_size b + 1"
  have sel: "select_unassigned_variable self b = mrv_scan b (scan_order b) ?m None"
    using mrv by (simp add: select_unassigned_variable_def)
  from some obtain q0 where q0: "q0 \<in> set (empty_cells b)" by (cases "empty_cells b") auto
  have "\<not> ?m \<le> candidate_count b q0" using candidate_count_le[of b q0] by simp
  with q0 have "\<not> (\<forall>q\<in>set (filter (\<lambda>(r, c). is_empty b r c) (scan_order b)).
      ?m \<le> candidate_count b q)"
    unfolding empty_cells_def by blast
  with mrv_scan_least[of ?m b "scan_order b" None]
  obtain before p after where
    b: "empty_cells b = before @ p # after" "mrv_scan b (scan_order b) ?m None = Some p"
      "\<forall>q\<in>set before. candidate_count b p < candidate_count b q"
      "\<forall>q\<in>set after. candidate_count b p \<le> candidate_count b q"
    unfolding empty_cells_def by auto
  have "candidate_count b p = 0" if "\<exists>q\<in>set (empty_cells b). candidate_count b q = 0"
  proof -
    from that obtain q where q: "q \<in> set (empty_cells b)" "candidate_count b q = 0" by blast
    from q(1) b(1) have "q \<in> set before \<or> q = p \<or> q \<in> set after" by auto
    with b(3,4) q(2) show ?thesis by force
  qed
  with b sel show ?thesis by (intro exI[of _ before] exI[of _ p] exI[of _ after]) simp
qed

theorem mrv_selects_first_least_witness:
  "use_mrv both_on \<and> empty_cells mrv4 \<noteq> [] \<and> empty_cells mrv_dead4 \<noteq> [] \<and>
   select_unassigned_variable both_on mrv4 = Some (0, 2) \<and>
   candidate_count mrv4 (0, 2) = 2 \<and>
   list_all (\<lambda>q. 2 < candidate_count mrv4 q) (takeWhile (\<lambda>q. q \<noteq> (0, 2)) (empty_cells mrv4)) \<and>
   list_all (\<lambda>q. 2 \<le> candidate_count mrv4 q) (empty_cells mrv4) \<and>
   select_unassigned_variable both_on mrv_dead4 = Some (1, 3) \<and>
   candidate_count mrv_dead4 (1, 3) = 0 \<and>
   (\<exists>before after. empty_cells mrv_dead4 = before @ (1, 3) # after \<and>
      list_all (\<lambda>q. 0 < candidate_count mrv_dead4 q) before)"
proof -
  have mrv: "use_mrv both_on" by (simp add: both_on_def)
  have e1: "empty_cells mrv4 \<noteq> []" by code_simp
  have e2: "empty_cells mrv_dead4 \<noteq> []" by code_simp
  have s1: "select_unassigned_variable both_on mrv4 = Some (0, 2)" by code_simp
  have s2: "select_unassigned_variable both_on mrv_dead4 = Some (1, 3)" by code_simp
  have c1: "candidate_count mrv4 (0, 2) = 2" by code_simp
  have c2: "candidate_count mrv_dead4 (1, 3) = 0" by code_simp
  have l1: "list_all (\<lambda>q. 2 < candidate_count mrv4 q)
      (takeWhile (\<lambda>q. q \<noteq> (0, 2)) (empty_cells mrv4))" by code_simp
  have l2: "list_all (\<lambda>q. 2 \<le> candidate_count mrv4 q) (empty_cells mrv4)" by code_simp
  from mrv_selects_first_least[OF mrv e2] s2 c2
  obtain before after where "empty_cells mrv_dead4 = before @ (1, 3) # after"
    "\<forall>q\<in>set before. 0 < candidate_count mrv_dead4 q"
    by auto
  then have "\<exists>before after. empty_cells mrv_dead4 = before @ (1, 3) # after \<and>
      list_all (\<lambda>q. 0 < candidate_count mrv_dead4 q) before"
    unfolding list_all_iff by blast
  with mrv e1 e2 s1 s2 c1 c2 l1 l2 show ?thesis by blast
qed

subsection \<open>A solved board with one cell cleared\<close>

lemma exactly_onceD:
  assumes "exactly_once side xs" "1 \<le> w" "w \<le> int side"
  shows "w \<in> set xs"
proof -
  from assms(2,3) have "w = int (nat w)" "1 \<le> nat w" "nat w < side + 1" by auto
  then have "w \<in> set (map int [1..<side + 1])"
    by (metis atLeastLessThan_iff image_eqI set_map set_upt)
  with assms(1) have "count_list xs w = 1" unfolding exactly_once_def list_all_iff by blast
  then show ?thesis by (metis count_list_0_iff zero_neq_one)
qed

lemma units_completeD_row:
  "units_complete s \<Longrightarrow> i < board_size s \<Longrightarrow> exactly_once (board_size s) (board_grid s ! i)"
  unfolding units_complete_def list_all_iff by simp

lemma distinct_singleton: "distinct xs \<Longrightarrow> set xs = {v} \<Longrightarrow> xs = [v]"
proof (cases xs)
  case Nil
  assume "set xs = {v}" with Nil show ?thesis by simp
next
  case (Cons x ys)
  assume d: "distinct xs" and s: "set xs = {v}"
  from s Cons have x: "x = v" and "set ys \<subseteq> {v}" by auto
  moreover from d Cons x have "v \<notin> set ys" by simp
  ultimately have "ys = []" by (cases ys) auto
  with Cons x show ?thesis by simp
qed

text \<open>
  The search on a board \<open>b\<close> with one empty cell, whose candidate set is the single value
  that turns \<open>b\<close> into the valid solution \<open>s\<close>: two calls, no backtrack.
\<close>

lemma single_candidate_search:
  assumes sel: "select_unassigned_variable self b = Some (r, c)"
    and cands: "get_candidates b r c = {v}" and vis: "enumerates vis"
    and s: "put b r c v = s" and full: "select_unassigned_variable self s = None"
    and cons: "is_consistent s" and valid: "is_valid_solution s"
  shows "backtrack (Suc (Suc d)) self vis st b =
    Some (True, enter (record_event (enter st b) (Trial s)) s, s)"
proof -
  have "set (vis b r c) = {v}" "distinct (vis b r c)"
    using vis cands by (simp_all add: enumerates_def)
  then have v: "vis b r c = [v]" by (simp add: distinct_singleton)
  have inner: "backtrack (Suc d) self vis st' s = Some (True, enter st' s, s)" for st'
    using full valid by (simp add: Let_def)
  have "try_candidates (Suc d) self vis (enter st b) b r c [v] =
      Some (True, enter (record_event (enter st b) (Trial s)) s, s)"
    using cons s inner by (simp add: Let_def del: backtrack.simps)
  then show ?thesis using sel cands v by (simp add: Let_def del: try_candidates.simps)
qed

text \<open>
  C5, amended.  For a valid complete solution with values in \<open>1..side\<close> (of any side, in
  particular 9 by 9) with exactly one cell cleared, \<open>solve\<close> reports success and returns
  the solution with a node count of exactly 2 and a backtrack count of 0, whatever the
  flags: the first call selects the cleared cell and tries its one candidate, the second
  call finds the board complete.
\<close>

theorem one_cleared_cell_two_nodes:
  assumes wf: "wf_board s" and valid: "is_valid_solution s" and rng: "in_range s"
    and r: "r < board_size s" and c: "c < board_size s" and vis: "enumerates vis"
  shows "\<exists>st. solve (Suc (Suc d)) self vis (put s r c 0) = Some ((True, Some s), st) \<and>
    nodes_explored st = 2 \<and> backtrack_count st = 0 \<and>
    history st = [Node (put s r c 0), Trial s, Node s]"
proof -
  let ?b = "put s r c 0" and ?v = "cell s r c"
  have wfb: "wf_board ?b" using wf by (rule wf_board_put)
  have rb: "r < board_size ?b" and cb: "c < board_size ?b" using r c by simp_all
  have complete: "cell s r' c' \<noteq> 0" if "r' < board_size s" "c' < board_size s" for r' c'
    using is_valid_solutionD(1)[OF valid] that by (simp add: is_complete_iff)
  have range1: "1 \<le> cell s r' c' \<and> cell s r' c' \<le> int (board_size s)"
    if "r' < board_size s" "c' < board_size s" for r' c'
    using in_rangeD[OF rng that] complete[OF that] by simp
  have cellb: "cell ?b r' c' = (if r' = r \<and> c' = c then 0 else cell s r' c')" for r' c'
    by (rule cell_put[OF wf r c])
  have eb: "is_empty ?b r c" by (simp add: is_empty_def cellb)
  have only: "(r', c') = (r, c)"
    if "r' < board_size s" "c' < board_size s" "is_empty ?b r' c'" for r' c'
    using that complete[of r' c'] by (auto simp: is_empty_def cellb split: if_splits)
  have f: "fills ?b s"
  proof (rule fillsI)
    show "board_n s = board_n ?b" "board_size s = board_size ?b" by simp_all
  next
    fix r' c' assume "r' < board_size ?b" "c' < board_size ?b" "cell ?b r' c' \<noteq> 0"
    then show "cell s r' c' = cell ?b r' c'" by (auto simp: cellb)
  next
    fix r' c' assume "r' < board_size ?b" "c' < board_size ?b" "cell ?b r' c' = 0"
    then show "1 \<le> cell s r' c' \<and> cell s r' c' \<le> int (board_size ?b)"
      using range1[of r' c'] by simp
  qed
  have sel: "select_unassigned_variable self ?b = Some (r, c)"
  proof (cases "select_unassigned_variable self ?b")
    case None
    from select_None[OF None rb cb] eb show ?thesis by simp
  next
    case (Some p)
    obtain r' c' where p: "p = (r', c')" by (cases p)
    from select_Some[OF Some[unfolded p]] only[of r' c'] have "(r', c') = (r, c)" by simp
    with Some p show ?thesis by simp
  qed
  have cands: "get_candidates ?b r c = {?v}"
  proof (intro equalityI subsetI)
    fix w assume w: "w \<in> get_candidates ?b r c"
    then have w1: "1 \<le> w" "w \<le> int (board_size s)"
      and free: "\<And>r' c'. r' < board_size s \<Longrightarrow> c' < board_size s \<Longrightarrow>
        related (board_n s) (r, c) (r', c') \<Longrightarrow> cell ?b r' c' \<noteq> w"
      unfolding get_candidates_iff[OF wfb rb cb] by simp_all
    have "units_complete s" using wf valid range1 by (rule valid_units_complete)
    from exactly_onceD[OF units_completeD_row[OF this r] w1]
    obtain c' where c': "c' < board_size s" "cell s r c' = w"
      unfolding set_row[OF wf r] by auto
    have "c' = c"
    proof (rule ccontr)
      assume "c' \<noteq> c"
      then have "cell ?b r c' = w" using c'(2) by (simp add: cellb)
      moreover have "related (board_n s) (r, c) (r, c')" by (simp add: related_def)
      ultimately show False using free[OF r c'(1)] by simp
    qed
    with c'(2) show "w \<in> {?v}" by simp
  next
    fix w assume "w \<in> {?v}"
    then show "w \<in> get_candidates ?b r c"
      using solution_value_candidate[OF wfb wf valid f rb cb eb] by simp
  qed
  have refill: "put ?b r c ?v = s" by (simp add: put_put put_cell)
  have full: "select_unassigned_variable self s = None"
  proof (cases "select_unassigned_variable self s")
    case None
    then show ?thesis .
  next
    case (Some p)
    obtain r' c' where p: "p = (r', c')" by (cases p)
    from select_Some[OF Some[unfolded p]] complete[of r' c'] show ?thesis
      by (simp add: is_empty_def)
  qed
  have cons: "is_consistent s"
    unfolding is_consistent_def list_ex_iff using complete
    by (auto simp: set_scan_order is_empty_def)
  have "backtrack (Suc (Suc d)) self vis initial_stats ?b =
      Some (True, enter (record_event (enter initial_stats ?b) (Trial s)) s, s)"
    using sel cands vis refill full cons valid by (rule single_candidate_search)
  then have "solve (Suc (Suc d)) self vis ?b =
      Some ((True, Some s), enter (record_event (enter initial_stats ?b) (Trial s)) s)"
    by (simp add: solve_def copy_wf[OF wfb] del: backtrack.simps)
  then show ?thesis
    by (intro exI[of _ "enter (record_event (enter initial_stats ?b) (Trial s)) s"])
      (simp add: enter_def record_event_def initial_stats_def)
qed

theorem one_cleared_cell_two_nodes_witness:
  "wf_board solved9 \<and> is_valid_solution solved9 \<and> in_range solved9 \<and>
   enumerates ascending \<and> use_mrv both_on \<and> put solved9 4 4 0 = cleared9 \<and>
   (\<exists>st. solve 2 both_on ascending cleared9 = Some ((True, Some solved9), st) \<and>
      nodes_explored st = 2 \<and> backtrack_count st = 0)"
proof -
  have wf: "wf_board solved9" by code_simp
  have valid: "is_valid_solution solved9" by code_simp
  have rng: "in_range solved9" by code_simp
  have vis: "enumerates ascending" by (simp add: enumerates_def ascending_def)
  have mrv: "use_mrv both_on" by (simp add: both_on_def)
  have b: "put solved9 4 4 0 = cleared9" by code_simp
  have lt: "4 < board_size solved9" by code_simp
  from one_cleared_cell_two_nodes[OF wf valid rng lt lt vis, of 0 both_on]
  have "\<exists>st. solve 2 both_on ascending cleared9 = Some ((True, Some solved9), st) \<and>
      nodes_explored st = 2 \<and> backtrack_count st = 0"
    unfolding b by (auto simp: numeral_2_eq_2)
  with wf valid rng vis mrv b show ?thesis by blast
qed

text \<open>
  C5, as the claim states it, fails: on the solved 9 by 9 board with its central cell
  cleared the search makes two calls, not one.
\<close>

theorem one_cleared_cell_is_not_one_node:
  "cleared9 = put solved9 4 4 0 \<and> is_valid_solution solved9 \<and> units_complete solved9 \<and>
   solve 2 both_on ascending cleared9 =
     Some ((True, Some solved9),
       \<lparr>nodes_explored = 2, backtrack_count = 0,
        history = [Node cleared9, Trial solved9, Node solved9]\<rparr>)"
  by code_simp

subsection \<open>The flags and the returned board\<close>

lemma solve_solution:
  assumes wf: "wf_board b" and vis: "enumerates vis"
    and res: "solve d self vis b = Some ((ok, Some s), st)"
  shows "wf_board s \<and> is_valid_solution s \<and> fills b s"
proof -
  from res have bt: "backtrack d self vis initial_stats b = Some (True, st, s)"
    by (auto simp: solve_def copy_wf[OF wf] Let_def split: option.splits if_splits)
  from backtrack_sound[OF vis wf bt] backtrack_restores(1)[OF bt wf] show ?thesis by simp
qed

text \<open>A solved board with one cell cleared has one completion only: the solved board.\<close>

lemma cleared_cell_unique:
  assumes wf: "wf_board s" and valid: "is_valid_solution s" and rng: "in_range s"
    and r: "r < board_size s" and c: "c < board_size s"
    and wft: "wf_board t" and validt: "is_valid_solution t" and f: "fills (put s r c 0) t"
  shows "t = s"
proof -
  let ?b = "put s r c 0"
  have size: "board_size t = board_size s" "board_n t = board_n s"
    using fillsD(1,2)[OF f] by simp_all
  have complete: "cell s r' c' \<noteq> 0" if "r' < board_size s" "c' < board_size s" for r' c'
    using is_valid_solutionD(1)[OF valid] that by (simp add: is_complete_iff)
  have range1: "1 \<le> cell s r' c' \<and> cell s r' c' \<le> int (board_size s)"
    if "r' < board_size s" "c' < board_size s" for r' c'
    using in_rangeD[OF rng that] complete[OF that] by simp
  have cellb: "cell ?b r' c' = (if r' = r \<and> c' = c then 0 else cell s r' c')" for r' c'
    by (rule cell_put[OF wf r c])
  have other: "cell t r' c' = cell s r' c'"
    if lt: "r' < board_size s" "c' < board_size s" and ne: "(r', c') \<noteq> (r, c)" for r' c'
  proof -
    from ne have "cell ?b r' c' = cell s r' c'" by (auto simp: cellb)
    moreover from this have "cell ?b r' c' \<noteq> 0" using complete[OF lt] by simp
    ultimately show ?thesis using fillsD(3)[OF f, of r' c'] lt by simp
  qed
  have w: "1 \<le> cell t r c" "cell t r c \<le> int (board_size s)"
    using fillsD(4)[OF f, of r c] r c by (simp_all add: cellb)
  have "units_complete s" using wf valid range1 by (rule valid_units_complete)
  from exactly_onceD[OF units_completeD_row[OF this r] w]
  obtain c' where c': "c' < board_size s" "cell s r c' = cell t r c"
    unfolding set_row[OF wf r] by auto
  have "c' = c"
  proof (rule ccontr)
    assume ne: "c' \<noteq> c"
    then have "cell t r c' = cell s r c'" using other[OF r c'(1)] by simp
    with c'(2) have "cell t r c' = cell t r c" by simp
    moreover have "cell t r c' \<noteq> cell t r c"
      using valid_solution_distinct[OF wft validt, of r c' r c] r c c'(1) ne size
      by (simp add: related_def)
    ultimately show False by simp
  qed
  with c'(2) have here: "cell t r c = cell s r c" by simp
  have "fills s t"
  proof (rule fillsI)
    show "board_n t = board_n s" "board_size t = board_size s" using size by simp_all
  next
    fix r' c' assume "r' < board_size s" "c' < board_size s"
    then show "cell t r' c' = cell s r' c'" using other[of r' c'] here by (cases "(r', c') = (r, c)") auto
  next
    fix r' c' assume "r' < board_size s" "c' < board_size s" "cell s r' c' = 0"
    then show "1 \<le> cell t r' c' \<and> cell t r' c' \<le> int (board_size s)"
      using complete[of r' c'] by simp
  qed
  then show ?thesis
    using wf wft complete by (intro fills_complete_eq) (simp_all add: is_empty_def)
qed

text \<open>
  C3, as the claim states it, fails: the flags change more than the node and backtrack
  counts.  The board below has several completions; with MRV disabled the search fills the
  first cell of the first row first, with MRV enabled the second, and the two searches
  return different boards.
\<close>

theorem flags_change_returned_board:
  "map_option fst
     (solve 15 \<lparr>use_mrv = False, use_forward_checking = True\<rparr> ascending two_ways4) =
     Some (True, Some two_ways4_plain) \<and>
   map_option fst
     (solve 15 \<lparr>use_mrv = True, use_forward_checking = True\<rparr> ascending two_ways4) =
     Some (True, Some two_ways4_mrv) \<and>
   two_ways4_plain \<noteq> two_ways4_mrv"
  by code_simp

text \<open>
  C3, amended.  On a well-formed board, whether \<open>solve\<close> reports success or failure is
  the same for any two settings of the MRV and forward-checking flags (and for any order
  in which the candidates are visited): both searches return, and both succeed or both
  fail.  Besides the node and backtrack counts the flags may change which board is
  returned: each returned board is a valid completion of the input, and the two returned
  boards are the same when the input has one completion only.
\<close>

theorem flags_do_not_change_outcome:
  assumes wf: "wf_board b" and vis1: "enumerates vis1" and vis2: "enumerates vis2"
    and d1: "count_empty b < d1" and d2: "count_empty b < d2"
  shows "\<exists>ok sol1 st1 sol2 st2.
    solve d1 \<lparr>use_mrv = m1, use_forward_checking = f1\<rparr> vis1 b = Some ((ok, sol1), st1) \<and>
    solve d2 \<lparr>use_mrv = m2, use_forward_checking = f2\<rparr> vis2 b = Some ((ok, sol2), st2) \<and>
    (sol1 = None \<longleftrightarrow> \<not> ok) \<and> (sol2 = None \<longleftrightarrow> \<not> ok) \<and>
    (\<forall>s. sol1 = Some s \<longrightarrow> wf_board s \<and> is_valid_solution s \<and> fills b s) \<and>
    (\<forall>s. sol2 = Some s \<longrightarrow> wf_board s \<and> is_valid_solution s \<and> fills b s) \<and>
    ((\<forall>s t. wf_board s \<and> is_valid_solution s \<and> fills b s \<and>
            wf_board t \<and> is_valid_solution t \<and> fills b t \<longrightarrow> s = t) \<longrightarrow> sol1 = sol2)"
proof -
  let ?P = "\<exists>s. wf_board s \<and> is_valid_solution s \<and> fills b s"
  let ?S = "\<lambda>s. wf_board s \<and> is_valid_solution s \<and> fills b s"
  from solve_success_iff[OF wf vis1 d1, of "\<lparr>use_mrv = m1, use_forward_checking = f1\<rparr>"]
  obtain ok1 sol1 st1 where
    1: "solve d1 \<lparr>use_mrv = m1, use_forward_checking = f1\<rparr> vis1 b = Some ((ok1, sol1), st1)"
      "sol1 = None \<longleftrightarrow> \<not> ok1" "ok1 \<longleftrightarrow> ?P" by blast
  from solve_success_iff[OF wf vis2 d2, of "\<lparr>use_mrv = m2, use_forward_checking = f2\<rparr>"]
  obtain ok2 sol2 st2 where
    2: "solve d2 \<lparr>use_mrv = m2, use_forward_checking = f2\<rparr> vis2 b = Some ((ok2, sol2), st2)"
      "sol2 = None \<longleftrightarrow> \<not> ok2" "ok2 \<longleftrightarrow> ?P" by blast
  from 1(3) 2(3) have ok: "ok2 = ok1" by simp
  have s1: "?S s" if "sol1 = Some s" for s
    using solve_solution[OF wf vis1 1(1)[unfolded that]] .
  have s2: "?S s" if "sol2 = Some s" for s
    using solve_solution[OF wf vis2 2(1)[unfolded that]] .
  have same: "sol1 = sol2" if uniq: "\<forall>s t. ?S s \<and> ?S t \<longrightarrow> s = t"
  proof (cases ok1)
    case True
    with 1(2) 2(2) ok obtain a b' where ab: "sol1 = Some a" "sol2 = Some b'" by auto
    from s1[OF ab(1)] s2[OF ab(2)] uniq have "a = b'" by blast
    with ab show ?thesis by simp
  next
    case False
    with 1(2) 2(2) ok show ?thesis by simp
  qed
  have r2: "solve d2 \<lparr>use_mrv = m2, use_forward_checking = f2\<rparr> vis2 b = Some ((ok1, sol2), st2)"
    using 2(1) ok by simp
  have n2: "sol2 = None \<longleftrightarrow> \<not> ok1" using 2(2) ok by simp
  have v1: "\<forall>s. sol1 = Some s \<longrightarrow> wf_board s \<and> is_valid_solution s \<and> fills b s"
    using s1 by blast
  have v2: "\<forall>s. sol2 = Some s \<longrightarrow> wf_board s \<and> is_valid_solution s \<and> fills b s"
    using s2 by blast
  have u: "(\<forall>s t. wf_board s \<and> is_valid_solution s \<and> fills b s \<and>
            wf_board t \<and> is_valid_solution t \<and> fills b t \<longrightarrow> s = t) \<longrightarrow> sol1 = sol2"
    using same by blast
  show ?thesis
    apply (rule exI[of _ ok1], rule exI[of _ sol1], rule exI[of _ st1])
    apply (rule exI[of _ sol2], rule exI[of _ st2])
    using 1(1) r2 1(2) n2 v1 v2 u by (intro conjI)
qed

theorem flags_do_not_change_outcome_witness:
  "wf_board puzzle4 \<and> enumerates ascending \<and> count_empty puzzle4 < 11 \<and>
   (\<exists>s st. solve 11 \<lparr>use_mrv = True, use_forward_checking = True\<rparr> ascending puzzle4 =
      Some ((True, Some s), st) \<and> is_valid_solution s \<and> fills puzzle4 s) \<and>
   (\<exists>s st. solve 11 \<lparr>use_mrv = True, use_forward_checking = False\<rparr> ascending puzzle4 =
      Some ((True, Some s), st) \<and> is_valid_solution s \<and> fills puzzle4 s) \<and>
   (\<exists>s st. solve 11 \<lparr>use_mrv = False, use_forward_checking = True\<rparr> ascending puzzle4 =
      Some ((True, Some s), st) \<and> is_valid_solution s \<and> fills puzzle4 s) \<and>
   (\<exists>s st. solve 11 \<lparr>use_mrv = False, use_forward_checking = False\<rparr> ascending puzzle4 =
      Some ((True, Some s), st) \<and> is_valid_solution s \<and> fills puzzle4 s) \<and>
   wf_board (put example4 1 2 0) \<and> count_empty (put example4 1 2 0) < 2 \<and>
   (\<exists>st1 st2.
      solve 2 \<lparr>use_mrv = True, use_forward_checking = True\<rparr> ascending (put example4 1 2 0) =
        Some ((True, Some example4), st1) \<and>
      solve 2 \<lparr>use_mrv = False, use_forward_checking = False\<rparr> ascending (put example4 1 2 0) =
        Some ((True, Some example4), st2))"
proof -
  have wf: "wf_board puzzle4" by code_simp
  have vis: "enumerates ascending" by (simp add: enumerates_def ascending_def)
  have d: "count_empty puzzle4 < 11" by code_simp
  have "map_option (\<lambda>(r, st). fst r)
      (solve 11 \<lparr>use_mrv = False, use_forward_checking = False\<rparr> ascending puzzle4) = Some True"
    by code_simp
  then have naive: "\<exists>sol st. solve 11 \<lparr>use_mrv = False, use_forward_checking = False\<rparr>
      ascending puzzle4 = Some ((True, sol), st)"
    by auto
  have four: "\<exists>s st. solve 11 \<lparr>use_mrv = m, use_forward_checking = f\<rparr> ascending puzzle4 =
      Some ((True, Some s), st) \<and> is_valid_solution s \<and> fills puzzle4 s" for m f
  proof -
    from flags_do_not_change_outcome[OF wf vis vis d d, of m f False False] naive
    obtain sol st where r: "solve 11 \<lparr>use_mrv = m, use_forward_checking = f\<rparr> ascending puzzle4 =
        Some ((True, sol), st)" "sol \<noteq> None"
      "\<forall>s. sol = Some s \<longrightarrow> wf_board s \<and> is_valid_solution s \<and> fills puzzle4 s"
      by auto
    from r(2) obtain s where "sol = Some s" by auto
    with r(1,3) show ?thesis by auto
  qed
  let ?c = "put example4 1 2 0"
  have wfe: "wf_board example4" by code_simp
  have ve: "is_valid_solution example4" by code_simp
  have re: "in_range example4" by code_simp
  have lt: "1 < board_size example4" "2 < board_size example4" by code_simp+
  have wfc: "wf_board ?c" by code_simp
  have dc: "count_empty ?c < 2" by code_simp
  have uniq: "\<forall>s t. wf_board s \<and> is_valid_solution s \<and> fills ?c s \<and>
      wf_board t \<and> is_valid_solution t \<and> fills ?c t \<longrightarrow> s = t"
    using cleared_cell_unique[OF wfe ve re lt] by blast
  have "map_option fst
      (solve 2 \<lparr>use_mrv = False, use_forward_checking = False\<rparr> ascending ?c) =
      Some (True, Some example4)"
    by code_simp
  then obtain st2 where plain: "solve 2 \<lparr>use_mrv = False, use_forward_checking = False\<rparr>
      ascending ?c = Some ((True, Some example4), st2)"
    by auto
  from flags_do_not_change_outcome[OF wfc vis vis dc dc, of True True False False] uniq plain
  have "\<exists>st1. solve 2 \<lparr>use_mrv = True, use_forward_checking = True\<rparr> ascending ?c =
      Some ((True, Some example4), st1)"
    by auto
  with plain have both: "\<exists>st1 st2.
      solve 2 \<lparr>use_mrv = True, use_forward_checking = True\<rparr> ascending ?c =
        Some ((True, Some example4), st1) \<and>
      solve 2 \<lparr>use_mrv = False, use_forward_checking = False\<rparr> ascending ?c =
        Some ((True, Some example4), st2)"
    by blast
  from wf vis d four[of True True] four[of True False] four[of False True] four[of False False]
    wfc dc both
  show ?thesis by (intro conjI)
qed

section \<open>The caller's board\<close>

lemma view_simps [simp]:
  "board_n (view h p) = ref_n p" "board_size (view h p) = ref_size p"
  "board_grid (view h p) = map (\<lambda>a. h ! a) (ref_rows p)"
  by (simp_all add: view_def)

lemma length_set_ref [simp]: "length (set_ref h p r c v) = length h"
  by (simp add: set_ref_def)

lemma allocated_set_ref [simp]: "allocated (set_ref h p r c v) q = allocated h q"
  by (simp add: allocated_def)

lemma allocatedD: "allocated h p \<Longrightarrow> a \<in> set (ref_rows p) \<Longrightarrow> a < length h"
  by (simp add: allocated_def list_all_iff)

lemma set_ref_other:
  assumes "r < length (ref_rows p)" "a \<notin> set (ref_rows p)"
  shows "set_ref h p r c v ! a = h ! a"
proof -
  have "ref_rows p ! r \<in> set (ref_rows p)" using assms(1) by (rule nth_mem)
  with assms(2) have "ref_rows p ! r \<noteq> a" by auto
  then show ?thesis by (simp add: set_ref_def)
qed

lemma view_set_ref:
  assumes d: "distinct (ref_rows p)" and al: "allocated h p" and r: "r < length (ref_rows p)"
  shows "view (set_ref h p r c v) p = put (view h p) r c v"
proof -
  let ?rows = "ref_rows p"
  have "map (\<lambda>a. set_ref h p r c v ! a) ?rows =
      (map (\<lambda>a. h ! a) ?rows)[r := (map (\<lambda>a. h ! a) ?rows ! r)[c := v]]"
  proof (rule nth_equalityI)
    show "length (map (\<lambda>a. set_ref h p r c v ! a) ?rows) =
      length ((map (\<lambda>a. h ! a) ?rows)[r := (map (\<lambda>a. h ! a) ?rows ! r)[c := v]])"
      by simp
  next
    fix i assume "i < length (map (\<lambda>a. set_ref h p r c v ! a) ?rows)"
    then have i: "i < length ?rows" by simp
    have lt: "?rows ! r < length h" using al r by (auto intro: allocatedD)
    show "map (\<lambda>a. set_ref h p r c v ! a) ?rows ! i =
      (map (\<lambda>a. h ! a) ?rows)[r := (map (\<lambda>a. h ! a) ?rows ! r)[c := v]] ! i"
    proof (cases "i = r")
      case True
      with i lt show ?thesis by (simp add: set_ref_def)
    next
      case False
      with d i r have "?rows ! i \<noteq> ?rows ! r" by (simp add: nth_eq_iff_index_eq)
      with i r False show ?thesis by (simp add: set_ref_def)
    qed
  qed
  then show ?thesis by (simp add: view_def put_def)
qed

lemma matches_Some:
  "matches h p x (Some (ok, st, b)) \<longleftrightarrow>
   (\<exists>h'. x = Some (ok, st, h') \<and> view h' p = b \<and> length h' = length h \<and>
      (\<forall>a<length h. a \<notin> set (ref_rows p) \<longrightarrow> h' ! a = h ! a))"
proof -
  have "list_all (\<lambda>a. a \<in> set (ref_rows p) \<or> h' ! a = h ! a) [0..<length h] \<longleftrightarrow>
      (\<forall>a<length h. a \<notin> set (ref_rows p) \<longrightarrow> h' ! a = h ! a)" for h'
    unfolding list_all_iff by auto
  then show ?thesis by (simp add: matches_def)
qed

lemma matchesI:
  assumes "x = Some (ok, st, h')" "view h' p = b" "length h' = length h"
    "\<And>a. a < length h \<Longrightarrow> a \<notin> set (ref_rows p) \<Longrightarrow> h' ! a = h ! a"
  shows "matches h p x (Some (ok, st, b))"
  unfolding matches_Some using assms by blast

lemma matchesD:
  assumes "matches h p x (Some (ok, st, b))"
  shows "\<exists>h'. x = Some (ok, st, h') \<and> view h' p = b \<and> length h' = length h \<and>
      (\<forall>a<length h. a \<notin> set (ref_rows p) \<longrightarrow> h' ! a = h ! a)"
  using assms unfolding matches_Some .

lemma matches_None [simp]: "matches h p x None \<longleftrightarrow> x = None"
  by (simp add: matches_def)

lemma matches_frame:
  assumes m: "matches h1 p x y" and len: "length h1 = length h"
    and same: "\<And>a. a < length h \<Longrightarrow> a \<notin> set (ref_rows p) \<Longrightarrow> h1 ! a = h ! a"
  shows "matches h p x y"
proof (cases y)
  case None
  with m show ?thesis by simp
next
  case (Some res)
  obtain ok st b where res: "res = (ok, st, b)" by (cases res)
  from matchesD[OF m[unfolded Some res]] obtain h' where h': "x = Some (ok, st, h')"
    "view h' p = b" "length h' = length h1"
    "\<forall>a<length h1. a \<notin> set (ref_rows p) \<longrightarrow> h' ! a = h1 ! a"
    by blast
  show ?thesis unfolding Some res
  proof (rule matchesI[OF h'(1,2)])
    show "length h' = length h" using h'(3) len by simp
    fix a assume "a < length h" "a \<notin> set (ref_rows p)"
    then show "h' ! a = h ! a" using h'(4) same[of a] len by simp
  qed
qed

lemma try_candidates_ref_matches:
  assumes IH: "\<And>st h. allocated h p \<Longrightarrow> wf_board (view h p) \<Longrightarrow>
      matches h p (backtrack_ref d self vis st h p) (backtrack d self vis st (view h p))"
    and dist: "distinct (ref_rows p)" and r: "r < ref_size p" and c: "c < ref_size p"
  shows "allocated h p \<Longrightarrow> wf_board (view h p) \<Longrightarrow>
    matches h p (try_candidates_ref d self vis st h p r c cands)
      (try_candidates d self vis st (view h p) r c cands)"
proof (induction cands arbitrary: st h)
  case Nil
  have "matches h p (Some (False, st, h)) (Some (False, st, view h p))"
    by (rule matchesI[where h' = h]) simp_all
  then show ?case by simp
next
  case (Cons num rest)
  note al = Cons.prems(1) and wf = Cons.prems(2)
  have rl: "r < length (ref_rows p)" using wf_boardD(3)[OF wf] r by simp
  let ?h1 = "set_ref h p r c num"
  let ?b1 = "put (view h p) r c num"
  let ?st1 = "record_event st (Trial ?b1)"
  have v1: "view ?h1 p = ?b1" using dist al rl by (rule view_set_ref)
  have al1: "allocated ?h1 p" using al by simp
  have wf1: "wf_board ?b1" using wf by (rule wf_board_put)
  have same1: "?h1 ! a = h ! a" if "a \<notin> set (ref_rows p)" for a
    using rl that by (rule set_ref_other)
  have undo: "matches h p
      (try_candidates_ref d self vis st' (set_ref h2 p r c 0) p r c rest)
      (try_candidates d self vis st' (put (view h2 p) r c 0) r c rest)"
    if h2: "allocated h2 p" "wf_board (view h2 p)" "length h2 = length h"
      "\<And>a. a < length h \<Longrightarrow> a \<notin> set (ref_rows p) \<Longrightarrow> h2 ! a = h ! a" for h2 st'
  proof -
    let ?h3 = "set_ref h2 p r c 0"
    have v3: "view ?h3 p = put (view h2 p) r c 0" using dist h2(1) rl by (rule view_set_ref)
    have "matches ?h3 p (try_candidates_ref d self vis st' ?h3 p r c rest)
        (try_candidates d self vis st' (view ?h3 p) r c rest)"
      using h2(1,2) by (intro Cons.IH) (simp_all add: v3 wf_board_put)
    then show ?thesis unfolding v3
    proof (rule matches_frame)
      show "length ?h3 = length h" using h2(3) by simp
      fix a assume "a < length h" "a \<notin> set (ref_rows p)"
      then show "?h3 ! a = h ! a" using set_ref_other[OF rl, of a h2 c 0] h2(4) by simp
    qed
  qed
  show ?case
  proof (cases "use_forward_checking self \<and> \<not> is_consistent ?b1")
    case True
    have "matches h p
        (try_candidates_ref d self vis (count_backtrack ?st1 (UndoForward (put ?b1 r c 0)))
          (set_ref ?h1 p r c 0) p r c rest)
        (try_candidates d self vis (count_backtrack ?st1 (UndoForward (put ?b1 r c 0)))
          (put (view ?h1 p) r c 0) r c rest)"
      using al1 wf1 same1 by (intro undo) (simp_all add: v1)
    moreover have "view (set_ref ?h1 p r c 0) p = put ?b1 r c 0"
      using view_set_ref[OF dist al1 rl, of c 0] by (simp add: v1)
    ultimately show ?thesis using True by (simp add: Let_def v1)
  next
    case False
    have m: "matches ?h1 p (backtrack_ref d self vis ?st1 ?h1 p) (backtrack d self vis ?st1 ?b1)"
      using IH[OF al1, of ?st1] wf1 by (simp add: v1)
    show ?thesis
    proof (cases "backtrack d self vis ?st1 ?b1")
      case None
      with m have "backtrack_ref d self vis ?st1 ?h1 p = None" by simp
      with None show ?thesis by (simp add: Let_def v1 False)
    next
      case (Some res)
      obtain ok2 st2 b2 where res: "res = (ok2, st2, b2)" by (cases res)
      from matchesD[OF m[unfolded Some res]] obtain h2 where
        h2: "backtrack_ref d self vis ?st1 ?h1 p = Some (ok2, st2, h2)" "view h2 p = b2"
          "length h2 = length ?h1"
          "\<forall>a<length ?h1. a \<notin> set (ref_rows p) \<longrightarrow> h2 ! a = ?h1 ! a"
        by blast
      have frame2: "h2 ! a = h ! a" if "a < length h" "a \<notin> set (ref_rows p)" for a
        using h2(4) same1[of a] that by simp
      have wf2: "wf_board b2" using backtrack_restores(1)[OF Some[unfolded res] wf1] by simp
      show ?thesis
      proof (cases ok2)
        case True
        have "matches h p (Some (True, st2, h2)) (Some (True, st2, b2))"
        proof (rule matchesI[where h' = h2])
          show "Some (True, st2, h2) = Some (True, st2, h2)" by simp
          show "view h2 p = b2" by (rule h2(2))
          show "length h2 = length h" using h2(3) by simp
          show "\<And>a. a < length h \<Longrightarrow> a \<notin> set (ref_rows p) \<Longrightarrow> h2 ! a = h ! a"
            by (rule frame2)
        qed
        with True Some res h2(1) show ?thesis by (simp add: Let_def v1 False)
      next
        case ok2: False
        have al2: "allocated h2 p" using al h2(3) by (simp add: allocated_def)
        have "matches h p
            (try_candidates_ref d self vis (count_backtrack st2 (UndoRecursion (put b2 r c 0)))
              (set_ref h2 p r c 0) p r c rest)
            (try_candidates d self vis (count_backtrack st2 (UndoRecursion (put b2 r c 0)))
              (put (view h2 p) r c 0) r c rest)"
          using al2 wf2 h2(2,3) frame2 by (intro undo) simp_all
        with ok2 Some res h2(1,2) show ?thesis
          using view_set_ref[OF dist al2 rl, of c 0] by (simp add: Let_def v1 False)
      qed
    qed
  qed
qed

lemma backtrack_ref_matches:
  assumes dist: "distinct (ref_rows p)"
  shows "allocated h p \<Longrightarrow> wf_board (view h p) \<Longrightarrow>
    matches h p (backtrack_ref d self vis st h p) (backtrack d self vis st (view h p))"
proof (induction d arbitrary: st h)
  case 0
  show ?case by simp
next
  case (Suc d)
  show ?case
  proof (cases "select_unassigned_variable self (view h p)")
    case None
    have "matches h p (Some (is_valid_solution (view h p), enter st (view h p), h))
        (Some (is_valid_solution (view h p), enter st (view h p), view h p))"
      by (rule matchesI[where h' = h]) simp_all
    with None show ?thesis by (simp add: Let_def)
  next
    case (Some q)
    obtain r c where q: "q = (r, c)" by (cases q)
    from select_Some[OF Some[unfolded q]] have rc: "r < ref_size p" "c < ref_size p" by simp_all
    show ?thesis
    proof (cases "card (get_candidates (view h p) r c) = 0")
      case True
      have "matches h p (Some (False, record_event (enter st (view h p)) (DeadEnd r c), h))
          (Some (False, record_event (enter st (view h p)) (DeadEnd r c), view h p))"
        by (rule matchesI[where h' = h]) simp_all
      with Some q True show ?thesis by (simp add: Let_def)
    next
      case False
      have "matches h p
          (try_candidates_ref d self vis (enter st (view h p)) h p r c (vis (view h p) r c))
          (try_candidates d self vis (enter st (view h p)) (view h p) r c (vis (view h p) r c))"
        using Suc.IH dist rc Suc.prems by (rule try_candidates_ref_matches)
      with Some q False show ?thesis by (simp add: Let_def)
    qed
  qed
qed

lemma nth_fresh_rows:
  "map (\<lambda>a. (xs @ ys) ! a) [length xs..<length xs + length ys] = ys"
  by (rule nth_equalityI) (simp_all add: nth_append)

text \<open>
  C8.  \<open>solve\<close> works on rows it allocates itself.  For a caller's board whose rows are
  allocated and which is well formed, \<open>solve\<close> returns, every row object that existed
  before the call holds the same values after it, so the caller's board shows the same
  cells whatever the outcome, and the outcome and counters are those of the search on
  the board's value.
\<close>

theorem solve_keeps_caller_board:
  assumes al: "allocated h board" and wf: "wf_board (view h board)"
    and vis: "enumerates vis" and d: "count_empty (view h board) < d"
  shows "\<exists>ok wb st h'.
    solve_ref d self vis h board = Some ((ok, if ok then Some wb else None), st, h') \<and>
    take (length h) h' = h \<and> view h' board = view h board \<and>
    solve d self vis (view h board) = Some ((ok, if ok then Some (view h' wb) else None), st)"
proof -
  let ?n = "ref_n board" and ?rows = "ref_rows board"
  let ?h1 = "h @ replicate (?n * ?n) (replicate (?n * ?n) 0)"
  let ?h2 = "?h1 @ map (\<lambda>a. ?h1 ! a) ?rows"
  let ?wb = "\<lparr>ref_n = ?n, ref_size = ?n * ?n,
      ref_rows = [length ?h1..<length ?h1 + length ?rows]\<rparr>"
  have cp: "copy_ref h board = (?h2, ?wb)" by (simp add: copy_ref_def init_ref_def)
  have old: "?h1 ! a = h ! a" if "a \<in> set ?rows" for a
    using allocatedD[OF al that] by (simp add: nth_append)
  have "map (\<lambda>a. ?h2 ! a) [length ?h1..<length ?h1 + length ?rows] = map (\<lambda>a. ?h1 ! a) ?rows"
    using nth_fresh_rows[of ?h1 "map (\<lambda>a. ?h1 ! a) ?rows"] by simp
  also have "\<dots> = map (\<lambda>a. h ! a) ?rows" using old by simp
  finally have "view ?h2 ?wb = copy (view h board)"
    by (simp add: view_def copy_def init_def)
  then have vw: "view ?h2 ?wb = view h board" using copy_wf[OF wf] by simp
  have dist: "distinct (ref_rows ?wb)" by simp
  have alw: "allocated ?h2 ?wb" by (simp add: allocated_def list_all_iff)
  from solve_returns[OF wf vis d, of self] obtain ok st b' where
    bt: "backtrack d self vis initial_stats (view h board) = Some (ok, st, b')"
    and res: "solve d self vis (view h board) = Some ((ok, if ok then Some b' else None), st)"
    by blast
  from backtrack_ref_matches[OF dist alw, of d self vis initial_stats] wf
  have "matches ?h2 ?wb (backtrack_ref d self vis initial_stats ?h2 ?wb) (Some (ok, st, b'))"
    by (simp only: vw bt)
  from matchesD[OF this] obtain h' where
    h': "backtrack_ref d self vis initial_stats ?h2 ?wb = Some (ok, st, h')" "view h' ?wb = b'"
      "length h' = length ?h2"
      "\<forall>a<length ?h2. a \<notin> set (ref_rows ?wb) \<longrightarrow> h' ! a = ?h2 ! a"
    by blast
  have keep: "h' ! a = h ! a" if "a < length h" for a
  proof -
    have "a < length ?h2" "a \<notin> set (ref_rows ?wb)" using that by simp_all
    with h'(4) have "h' ! a = ?h2 ! a" by blast
    also have "\<dots> = h ! a" using that by (simp add: nth_append)
    finally show ?thesis .
  qed
  have "take (length h) h' = h"
    using h'(3) keep by (intro nth_equalityI) simp_all
  moreover have "view h' board = view h board"
    using keep allocatedD[OF al] by (simp add: view_def)
  moreover have "solve_ref d self vis h board =
      Some ((ok, if ok then Some ?wb else None), st, h')"
    using h'(1) by (simp add: solve_ref_def cp del: backtrack_ref.simps)
  ultimately show ?thesis using res h'(2)
    by (intro exI[of _ ok] exI[of _ ?wb] exI[of _ st] exI[of _ h']) simp
qed

theorem solve_keeps_caller_board_witness:
  "allocated puzzle4_store puzzle4_ref \<and> view puzzle4_store puzzle4_ref = puzzle4 \<and>
   wf_board puzzle4 \<and> enumerates ascending \<and> count_empty puzzle4 < 11 \<and>
   (\<exists>wb st h'. solve_ref 11 both_on ascending puzzle4_store puzzle4_ref =
       Some ((True, Some wb), st, h') \<and>
     take 4 h' = puzzle4_store \<and> view h' puzzle4_ref = puzzle4 \<and> view h' wb = example4)"
proof -
  have al: "allocated puzzle4_store puzzle4_ref" by code_simp
  have v: "view puzzle4_store puzzle4_ref = puzzle4" by code_simp
  have wf: "wf_board puzzle4" by code_simp
  have vis: "enumerates ascending" by (simp add: enumerates_def ascending_def)
  have d: "count_empty puzzle4 < 11" by code_simp
  have len: "length puzzle4_store = 4" by code_simp
  have "map_option fst (solve 11 both_on ascending puzzle4) = Some (True, Some example4)"
    by code_simp
  then obtain st0 where s0: "solve 11 both_on ascending puzzle4 = Some ((True, Some example4), st0)"
    by auto
  from solve_keeps_caller_board[OF al, unfolded v, OF wf vis d, of both_on]
  obtain ok wb st h' where
    r: "solve_ref 11 both_on ascending puzzle4_store puzzle4_ref =
        Some ((ok, if ok then Some wb else None), st, h')"
      "take (length puzzle4_store) h' = puzzle4_store" "view h' puzzle4_ref = puzzle4"
      "solve 11 both_on ascending puzzle4 = Some ((ok, if ok then Some (view h' wb) else None), st)"
    by blast
  from r(4) s0 have ok: "ok" and sol: "view h' wb = example4"
    by (auto split: if_splits)
  with r(1,2,3) len al v wf vis d show ?thesis by auto
qed

section \<open>The constructors establish the class invariant\<close>

lemma wf_board_init: "0 < n \<Longrightarrow> wf_board (init n)"
  by (simp add: wf_board_def init_def list_all_iff)

lemma wf_board_from_list:
  assumes "wf_board self" "from_list self g = Inr b"
  shows "wf_board b"
  using assms
  by (auto simp: from_list_def wf_board_def list_all_iff list_ex_iff split: if_splits)

lemma decode_cells_length:
  "decode_cells side p = Inr vals \<Longrightarrow> length vals = length p \<and>
     (\<forall>v\<in>set vals. v \<le> int side)"
proof (induction p arbitrary: vals)
  case Nil
  then show ?case by simp
next
  case (Cons ch rest)
  then show ?case by (auto split: sum.splits if_splits)
qed

lemma decode_char_nonneg: "decode_char ch = Inr v \<Longrightarrow> 0 \<le> v"
  by (auto simp: decode_char_def int36_def Let_def split: if_splits)

lemma decode_cells_nonneg: "decode_cells side p = Inr vals \<Longrightarrow> \<forall>v\<in>set vals. 0 \<le> v"
proof (induction p arbitrary: vals)
  case Nil
  then show ?case by simp
next
  case (Cons ch rest)
  then show ?case by (auto split: sum.splits if_splits dest: decode_char_nonneg)
qed

lemma from_string_Inr:
  assumes "from_string self p = Inr b"
  obtains vals where "decode_cells (board_size self) (strip_puzzle p) = Inr vals"
    "length vals = (board_size self)\<^sup>2"
    "b = self\<lparr>board_grid := map (\<lambda>i. map (\<lambda>j. vals ! (i * board_size self + j))
          [0..<board_size self]) [0..<board_size self]\<rparr>"
proof -
  from assms have len: "length (strip_puzzle p) = (board_size self)\<^sup>2"
    by (auto simp: from_string_def Let_def split: if_splits)
  with assms obtain vals where v: "decode_cells (board_size self) (strip_puzzle p) = Inr vals"
    "b = self\<lparr>board_grid := map (\<lambda>i. map (\<lambda>j. vals ! (i * board_size self + j))
          [0..<board_size self]) [0..<board_size self]\<rparr>"
    by (auto simp: from_string_def Let_def split: sum.splits)
  from decode_cells_length[OF v(1)] len have "length vals = (board_size self)\<^sup>2" by simp
  with v that show ?thesis by blast
qed

lemma wf_board_from_string:
  assumes "wf_board self" "from_string self p = Inr b"
  shows "wf_board b"
proof -
  from assms(2) obtain vals where
    "b = self\<lparr>board_grid := map (\<lambda>i. map (\<lambda>j. vals ! (i * board_size self + j))
          [0..<board_size self]) [0..<board_size self]\<rparr>"
    by (rule from_string_Inr)
  with assms(1) show ?thesis by (simp add: wf_board_def list_all_iff)
qed

lemma square_index:
  assumes "i < (s::nat)" "j < s"
  shows "i * s + j < s\<^sup>2"
proof -
  have "i * s + j < i * s + s" using assms(2) by simp
  also have "\<dots> = Suc i * s" by simp
  also have "\<dots> \<le> s * s" using assms(1) by (intro mult_le_mono1) simp
  finally show ?thesis by (simp add: power2_eq_square)
qed

text \<open>A board read by \<open>from_string\<close> holds values of \<open>[0, side]\<close> only.\<close>

lemma in_range_from_string:
  assumes "from_string self p = Inr b"
  shows "in_range b"
proof -
  let ?s = "board_size self"
  from assms obtain vals where v: "decode_cells ?s (strip_puzzle p) = Inr vals"
    "length vals = ?s\<^sup>2"
    "b = self\<lparr>board_grid := map (\<lambda>i. map (\<lambda>j. vals ! (i * ?s + j)) [0..<?s]) [0..<?s]\<rparr>"
    by (rule from_string_Inr)
  have "0 \<le> cell b r c \<and> cell b r c \<le> int (board_size b)"
    if "r < board_size b" "c < board_size b" for r c
  proof -
    from that v(3) have rc: "r < ?s" "c < ?s" by simp_all
    then have "cell b r c = vals ! (r * ?s + c)" using v(3) by (simp add: cell_def)
    moreover have "vals ! (r * ?s + c) \<in> set vals"
      using square_index[OF rc] v(2) by simp
    ultimately show ?thesis
      using decode_cells_length[OF v(1)] decode_cells_nonneg[OF v(1)] v(3) by simp
  qed
  then show ?thesis unfolding in_range_def list_all_iff by (auto simp: set_scan_order)
qed

text \<open>The outcome of \<open>solve\<close> does not depend on the bound, once the bound is large enough.\<close>

lemma solve_deeper:
  assumes "solve d self vis b = Some res" "d \<le> d'"
  shows "solve d' self vis b = Some res"
proof -
  from assms(1) obtain r where r: "backtrack d self vis initial_stats (copy b) = Some r"
    by (auto simp: solve_def Let_def split: option.splits)
  from backtrack_deeper[OF r assms(2)] assms(1) r show ?thesis
    by (simp add: solve_def Let_def)
qed

end
